theory Spec2Isabelle
  imports Main
begin

section \<open>Data model (packages/core types)\<close>

text \<open>
  The change engine works on plain JSON documents. Opaque parts (endpoint schemas, conflict
  details, the descriptive sections of a spec) are kept as JSON trees.

  The types below are the declared types of \<open>packages/core\<close>: every property that the
  TypeScript type demands is there, with its type. Two things go beyond the declared types,
  because the statements about malformed input are decided on them: the three lists of a
  spec and the operations array of a request may be missing, and an operation may have a
  \<open>type\<close> outside the closed set. Other shapes that only an unchecked cast lets through (a
  \<open>null\<close> operation, an add operation without its object, an update without its patch, an
  entity without \<open>fields\<close> or \<open>relations\<close>) have no value here; nothing below is claimed
  about them.
\<close>

datatype json =
    JNull
  | JBool bool
  | JNum int
  | JStr string
  | JArr "json list"
  | JObj "(string \<times> json) list"

record requirement =
  req_id :: string
  req_description :: string

record field =
  fld_name :: string
  fld_type :: string

datatype relation_type = OneToOne | OneToMany | ManyToOne | ManyToMany

record relation =
  rel_target :: string
  rel_type :: relation_type

record entity =
  ent_id :: string
  ent_name :: string
  ent_fields :: "field list"
  ent_relations :: "relation list"

datatype http_method = GET | POST | PUT | PATCH | DELETE

record endpoint =
  ep_id :: string
  ep_method :: http_method
  ep_path :: string
  ep_schema :: json

datatype folder = FolderStructure "(string \<times> folder option) list"

text \<open>
  \<open>Spec\<close>. The three lists are \<open>None\<close> when the property is missing from the document
  (\<open>undefined\<close> at run time): the TypeScript type demands them, but \<open>parseSpec\<close> is a bare
  cast, so nothing checks it. \<open>passengers\<close> holds the sections the engine never reads.
\<close>

record spec =
  requirements :: "requirement list option"
  entities :: "entity list option"
  endpoints :: "endpoint list option"
  folder_structure :: folder
  passengers :: "(string \<times> json) list"

text \<open>\<open>Partial<T>\<close>: every property may be absent.\<close>

record requirement_patch =
  rp_id :: "string option"
  rp_description :: "string option"

record entity_patch =
  pe_id :: "string option"
  pe_name :: "string option"
  pe_fields :: "field list option"
  pe_relations :: "relation list option"

record endpoint_patch =
  pp_id :: "string option"
  pp_method :: "http_method option"
  pp_path :: "string option"
  pp_schema :: "json option"

text \<open>
  \<open>ChangeOperation\<close>, the tagged union. \<open>Unsupported t\<close> is an object whose \<open>type\<close> is outside
  the closed set (\<open>None\<close>: no \<open>type\<close> property at all); it reaches the \<open>default\<close> branch.
\<close>

datatype change_operation =
    AddRequirement requirement
  | UpdateRequirement string requirement_patch
  | RemoveRequirement string
  | AddEntity entity
  | UpdateEntity string entity_patch
  | RemoveEntity string
  | AddEndpoint endpoint
  | UpdateEndpoint string endpoint_patch
  | RemoveEndpoint string
  | UpdateFolderStructure folder
  | Unsupported "string option"

record change_request =
  summary :: string
  operations :: "change_operation list option"

datatype conflict_type = Naming | MissingField | CircularRelation | Validation

record change_conflict =
  ctype :: conflict_type
  message :: string
  details :: "json option"

record change_impact =
  description :: string
  affectedEntities :: "string list option"
  affectedEndpoints :: "string list option"
  affectedFiles :: "string list option"

record apply_result =
  res_spec :: spec
  conflicts :: "change_conflict list"
  impacts :: "change_impact list"

text \<open>
  What a call can do besides returning: throw a \<open>TypeError\<close> (a property read or a call on
  \<open>undefined\<close>, a \<open>for...of\<close> over a non-iterable), or, in the model only, run out of the
  recursion budget given to the depth-first search (\<open>Diverged\<close>; shown unreachable below).
\<close>

datatype js_error = TypeError | Diverged

section \<open>Small JavaScript helpers\<close>

definition method_str :: "http_method \<Rightarrow> string" where
  "method_str m = (case m of GET \<Rightarrow> ''GET'' | POST \<Rightarrow> ''POST'' | PUT \<Rightarrow> ''PUT''
     | PATCH \<Rightarrow> ''PATCH'' | DELETE \<Rightarrow> ''DELETE'')"

text \<open>\<open>Object.assign(target, patch)\<close>: every property present in the patch overwrites.\<close>

definition assignRequirement :: "requirement \<Rightarrow> requirement_patch \<Rightarrow> requirement" where
  "assignRequirement r p =
     \<lparr> req_id = (case rp_id p of None \<Rightarrow> req_id r | Some v \<Rightarrow> v),
       req_description = (case rp_description p of None \<Rightarrow> req_description r | Some v \<Rightarrow> v) \<rparr>"

definition assignEntity :: "entity \<Rightarrow> entity_patch \<Rightarrow> entity" where
  "assignEntity e p =
     \<lparr> ent_id = (case pe_id p of None \<Rightarrow> ent_id e | Some v \<Rightarrow> v),
       ent_name = (case pe_name p of None \<Rightarrow> ent_name e | Some v \<Rightarrow> v),
       ent_fields = (case pe_fields p of None \<Rightarrow> ent_fields e | Some v \<Rightarrow> v),
       ent_relations = (case pe_relations p of None \<Rightarrow> ent_relations e | Some v \<Rightarrow> v) \<rparr>"

definition assignEndpoint :: "endpoint \<Rightarrow> endpoint_patch \<Rightarrow> endpoint" where
  "assignEndpoint e p =
     \<lparr> ep_id = (case pp_id p of None \<Rightarrow> ep_id e | Some v \<Rightarrow> v),
       ep_method = (case pp_method p of None \<Rightarrow> ep_method e | Some v \<Rightarrow> v),
       ep_path = (case pp_path p of None \<Rightarrow> ep_path e | Some v \<Rightarrow> v),
       ep_schema = (case pp_schema p of None \<Rightarrow> ep_schema e | Some v \<Rightarrow> v) \<rparr>"

text \<open>
  \<open>xs.find(P)\<close> returns the first match, and the mutation through that reference changes
  exactly that element of the array.
\<close>

fun update_first :: "('a \<Rightarrow> bool) \<Rightarrow> ('a \<Rightarrow> 'a) \<Rightarrow> 'a list \<Rightarrow> 'a list" where
  "update_first P f [] = []"
| "update_first P f (x # xs) = (if P x then f x # xs else x # update_first P f xs)"

text \<open>A string is truthy when it is present and not empty.\<close>

definition truthy :: "string option \<Rightarrow> bool" where
  "truthy s = (case s of None \<Rightarrow> False | Some v \<Rightarrow> v \<noteq> [])"

text \<open>
  \<open>sanitizePath\<close>: slashes and every character outside \<open>[a-zA-Z0-9_]\<close> become underscores,
  leading and trailing underscores are dropped, and an empty result is \<open>root\<close>.
\<close>

definition word_char :: "char \<Rightarrow> bool" where
  "word_char c = (let n = of_char c :: nat in
     (97 \<le> n \<and> n \<le> 122) \<or> (65 \<le> n \<and> n \<le> 90) \<or> (48 \<le> n \<and> n \<le> 57) \<or> n = 95)"

definition sanitizePath :: "string \<Rightarrow> string" where
  "sanitizePath path =
     (let a = map (\<lambda>c. if c = CHR ''/'' then CHR ''_'' else c) path;
          b = map (\<lambda>c. if word_char c then c else CHR ''_'') a;
          c = dropWhile (\<lambda>c. c = CHR ''_'') b;
          d = rev (dropWhile (\<lambda>c. c = CHR ''_'') (rev c))
      in if d = [] then ''root'' else d)"

section \<open>Spec validator\<close>

definition field_json :: "field \<Rightarrow> json" where
  "field_json f = JObj [(''name'', JStr (fld_name f)), (''type'', JStr (fld_type f))]"

definition invalidField :: "entity \<Rightarrow> field \<Rightarrow> change_conflict" where
  "invalidField e f =
     \<lparr> ctype = MissingField,
       message = ''Entity '' @ ent_name e @ '' has an invalid field definition'',
       details = Some (JObj [(''entityName'', JStr (ent_name e)), (''field'', field_json f)]) \<rparr>"

definition duplicateEntity :: "entity \<Rightarrow> change_conflict" where
  "duplicateEntity e =
     \<lparr> ctype = Naming,
       message = ''Duplicate entity name detected: '' @ ent_name e,
       details = Some (JObj [(''entityName'', JStr (ent_name e))]) \<rparr>"

definition duplicateEndpoint :: "endpoint \<Rightarrow> change_conflict" where
  "duplicateEndpoint e =
     \<lparr> ctype = Naming,
       message = ''Duplicate endpoint detected: '' @ method_str (ep_method e) @ '' '' @ ep_path e,
       details = Some (JObj [(''method'', JStr (method_str (ep_method e))),
                             (''path'', JStr (ep_path e))]) \<rparr>"

text \<open>\<open>entity.fields.forEach\<close>: one conflict per field whose name or type is empty.\<close>

definition fieldConflicts :: "entity \<Rightarrow> change_conflict list" where
  "fieldConflicts e =
     map (invalidField e) (filter (\<lambda>f. fld_name f = [] \<or> fld_type f = []) (ent_fields e))"

text \<open>The first loop of \<open>validateSpec\<close>; \<open>seen\<close> is the set \<open>entityNames\<close>.\<close>

fun entityConflicts :: "string set \<Rightarrow> entity list \<Rightarrow> change_conflict list" where
  "entityConflicts seen [] = []"
| "entityConflicts seen (e # es) =
     (if ent_name e \<in> seen
      then duplicateEntity e # fieldConflicts e @ entityConflicts seen es
      else fieldConflicts e @ entityConflicts (insert (ent_name e) seen) es)"

definition signature :: "endpoint \<Rightarrow> string" where
  "signature e = method_str (ep_method e) @ '':'' @ ep_path e"

text \<open>The second loop; \<open>seen\<close> is the set \<open>endpointSignatures\<close>.\<close>

fun endpointConflicts :: "string set \<Rightarrow> endpoint list \<Rightarrow> change_conflict list" where
  "endpointConflicts seen [] = []"
| "endpointConflicts seen (e # es) =
     (if signature e \<in> seen
      then duplicateEndpoint e # endpointConflicts seen es
      else endpointConflicts (insert (signature e) seen) es)"

subsection \<open>Circular relations\<close>

record dfs_state =
  visited :: "string set"
  stack :: "string set"
  found :: "change_conflict list"

definition circular :: "entity \<Rightarrow> change_conflict" where
  "circular e =
     \<lparr> ctype = CircularRelation,
       message = ''Circular relation detected involving '' @ ent_name e,
       details = Some (JObj [(''entityId'', JStr (ent_id e)), (''entityName'', JStr (ent_name e))]) \<rparr>"

text \<open>\<open>entities.find((item) => item.name === relation.target || item.id === relation.target)\<close>\<close>

definition findTarget :: "entity list \<Rightarrow> string \<Rightarrow> entity option" where
  "findTarget es t = find (\<lambda>item. ent_name item = t \<or> ent_id item = t) es"

text \<open>
  The closure \<open>visit\<close> and its loop over \<open>entity.relations\<close>. The first argument bounds the
  depth of nested calls; \<open>None\<close> means the bound was hit. When a nested call returns
  \<open>true\<close> the caller returns at once, without \<open>stack.delete\<close>.
\<close>

fun visit :: "nat \<Rightarrow> entity list \<Rightarrow> dfs_state \<Rightarrow> entity \<Rightarrow> (bool \<times> dfs_state) option"
  and visitRelations :: "nat \<Rightarrow> entity list \<Rightarrow> dfs_state \<Rightarrow> relation list \<Rightarrow> (bool \<times> dfs_state) option"
where
  "visit 0 es st e = None"
| "visit (Suc n) es st e =
     (if ent_id e \<in> stack st then Some (True, st\<lparr>found := found st @ [circular e]\<rparr>)
      else if ent_id e \<in> visited st then Some (False, st)
      else (case visitRelations n es
                   (st\<lparr>visited := insert (ent_id e) (visited st),
                       stack := insert (ent_id e) (stack st)\<rparr>) (ent_relations e) of
              None \<Rightarrow> None
            | Some (True, st') \<Rightarrow> Some (True, st')
            | Some (False, st') \<Rightarrow> Some (False, st'\<lparr>stack := stack st' - {ent_id e}\<rparr>)))"
| "visitRelations n es st [] = Some (False, st)"
| "visitRelations n es st (r # rs) =
     (case findTarget es (rel_target r) of
        None \<Rightarrow> visitRelations n es st rs
      | Some t \<Rightarrow>
          (case visit n es st t of
             None \<Rightarrow> None
           | Some (True, st') \<Rightarrow> Some (True, st')
           | Some (False, st') \<Rightarrow> visitRelations n es st' rs))"

text \<open>\<open>entities.forEach((entity) => { if (!visited.has(entity.id)) visit(entity) })\<close>\<close>

fun visitAll :: "nat \<Rightarrow> entity list \<Rightarrow> dfs_state \<Rightarrow> entity list \<Rightarrow> dfs_state option" where
  "visitAll n es st [] = Some st"
| "visitAll n es st (e # rest) =
     (if ent_id e \<in> visited st then visitAll n es st rest
      else (case visit n es st e of
              None \<Rightarrow> None
            | Some (b, st') \<Rightarrow> visitAll n es st' rest))"

definition validateCircularRelations :: "entity list \<Rightarrow> change_conflict list option" where
  "validateCircularRelations es =
     map_option found
       (visitAll (Suc (length es)) es \<lparr>visited = {}, stack = {}, found = []\<rparr> es)"

definition validateSpec :: "spec \<Rightarrow> js_error + change_conflict list" where
  "validateSpec s =
     (case entities s of
        None \<Rightarrow> Inl TypeError
      | Some es \<Rightarrow>
          (case endpoints s of
             None \<Rightarrow> Inl TypeError
           | Some eps \<Rightarrow>
               (case validateCircularRelations es of
                  None \<Rightarrow> Inl Diverged
                | Some cyc \<Rightarrow> Inr (entityConflicts {} es @ endpointConflicts {} eps @ cyc))))"

section \<open>Change applier\<close>

definition noEffect :: "spec \<Rightarrow> change_conflict \<Rightarrow> apply_result" where
  "noEffect w c = \<lparr> res_spec = w, conflicts = [c], impacts = [] \<rparr>"

definition applied :: "spec \<Rightarrow> change_impact \<Rightarrow> apply_result" where
  "applied w i = \<lparr> res_spec = w, conflicts = [], impacts = [i] \<rparr>"

definition requirementsImpact :: "string \<Rightarrow> change_impact" where
  "requirementsImpact d =
     \<lparr> description = d, affectedEntities = None, affectedEndpoints = None,
       affectedFiles = Some [''docs/requirements.md''] \<rparr>"

definition entityImpact :: "string \<Rightarrow> string \<Rightarrow> string list \<Rightarrow> change_impact" where
  "entityImpact name verb files =
     \<lparr> description = ''Entity '' @ name @ '' '' @ verb, affectedEntities = Some [name],
       affectedEndpoints = None, affectedFiles = Some files \<rparr>"

definition endpointLabel :: "http_method \<Rightarrow> string \<Rightarrow> string" where
  "endpointLabel m p = method_str m @ '' '' @ p"

definition endpointImpact :: "http_method \<Rightarrow> string \<Rightarrow> string \<Rightarrow> string list \<Rightarrow> change_impact" where
  "endpointImpact m p verb files =
     \<lparr> description = ''Endpoint '' @ endpointLabel m p @ '' '' @ verb, affectedEntities = None,
       affectedEndpoints = Some [endpointLabel m p], affectedFiles = Some files \<rparr>"

text \<open>
  One iteration of the \<open>for\<close> loop of \<open>applyChangeRequestToSpec\<close>, on the working spec \<open>w\<close>.
  The result holds the working spec after the iteration and what the iteration pushed onto
  \<open>conflicts\<close> and \<open>impacts\<close>. A method call on a missing list throws.
\<close>

fun applyOperation :: "spec \<Rightarrow> change_operation \<Rightarrow> js_error + apply_result" where
  "applyOperation w (AddRequirement q) =
     (case requirements w of
        None \<Rightarrow> Inl TypeError
      | Some rs \<Rightarrow>
          if list_ex (\<lambda>r. req_id r = req_id q) rs
          then Inr (noEffect w
                 \<lparr> ctype = Naming,
                   message = ''Requirement with id '' @ req_id q @ '' already exists'',
                   details = Some (JObj [(''requirementId'', JStr (req_id q))]) \<rparr>)
          else Inr (applied (w\<lparr>requirements := Some (rs @ [q])\<rparr>)
                 (requirementsImpact ''Requirement added'')))"
| "applyOperation w (UpdateRequirement rid p) =
     (case requirements w of
        None \<Rightarrow> Inl TypeError
      | Some rs \<Rightarrow>
          (case find (\<lambda>r. req_id r = rid) rs of
             None \<Rightarrow> Inr (noEffect w
                 \<lparr> ctype = MissingField,
                   message = ''Requirement '' @ rid @ '' not found'',
                   details = Some (JObj [(''requirementId'', JStr rid)]) \<rparr>)
           | Some r \<Rightarrow>
               Inr (applied
                 (w\<lparr>requirements :=
                      Some (update_first (\<lambda>r. req_id r = rid) (\<lambda>r. assignRequirement r p) rs)\<rparr>)
                 (requirementsImpact ''Requirement updated''))))"
| "applyOperation w (RemoveRequirement rid) =
     (case requirements w of
        None \<Rightarrow> Inl TypeError
      | Some rs \<Rightarrow>
          (let kept = filter (\<lambda>r. req_id r \<noteq> rid) rs;
               w' = w\<lparr>requirements := Some kept\<rparr>
           in if length rs = length kept
              then Inr (noEffect w'
                 \<lparr> ctype = MissingField,
                   message = ''Requirement '' @ rid @ '' not found for removal'',
                   details = Some (JObj [(''requirementId'', JStr rid)]) \<rparr>)
              else Inr (applied w' (requirementsImpact ''Requirement removed''))))"
| "applyOperation w (AddEntity e) =
     (case entities w of
        None \<Rightarrow> Inl TypeError
      | Some es \<Rightarrow>
          if list_ex (\<lambda>x. ent_name x = ent_name e) es
          then Inr (noEffect w
                 \<lparr> ctype = Naming,
                   message = ''Entity with name '' @ ent_name e @ '' already exists'',
                   details = Some (JObj [(''entityName'', JStr (ent_name e))]) \<rparr>)
          else Inr (applied (w\<lparr>entities := Some (es @ [e])\<rparr>)
                 (entityImpact (ent_name e) ''added''
                    [''prisma/schema.prisma'', ''src/entities/'' @ ent_name e @ ''.ts''])))"
| "applyOperation w (UpdateEntity eid p) =
     (case entities w of
        None \<Rightarrow> Inl TypeError
      | Some es \<Rightarrow>
          (case find (\<lambda>x. ent_id x = eid) es of
             None \<Rightarrow> Inr (noEffect w
                 \<lparr> ctype = MissingField,
                   message = ''Entity '' @ eid @ '' not found'',
                   details = Some (JObj [(''entityId'', JStr eid)]) \<rparr>)
           | Some e \<Rightarrow>
               if truthy (pe_name p) \<and>
                  list_ex (\<lambda>other. ent_id other \<noteq> eid \<and> Some (ent_name other) = pe_name p) es
               then Inr (noEffect w
                 \<lparr> ctype = Naming,
                   message = ''Entity name '' @ the (pe_name p) @ '' already in use'',
                   details = Some (JObj [(''entityId'', JStr eid),
                                         (''newName'', JStr (the (pe_name p)))]) \<rparr>)
               else
                 (let e' = assignEntity e p in
                  Inr (applied
                    (w\<lparr>entities :=
                         Some (update_first (\<lambda>x. ent_id x = eid) (\<lambda>x. assignEntity x p) es)\<rparr>)
                    (entityImpact (ent_name e') ''updated''
                       [''prisma/schema.prisma'', ''src/entities/'' @ ent_name e' @ ''.ts''])))))"
| "applyOperation w (RemoveEntity eid) =
     (case entities w of
        None \<Rightarrow> Inl TypeError
      | Some es \<Rightarrow>
          (case find (\<lambda>x. ent_id x = eid) es of
             None \<Rightarrow> Inr (noEffect w
                 \<lparr> ctype = MissingField,
                   message = ''Entity '' @ eid @ '' not found for removal'',
                   details = Some (JObj [(''entityId'', JStr eid)]) \<rparr>)
           | Some e \<Rightarrow>
               Inr (applied (w\<lparr>entities := Some (filter (\<lambda>x. ent_id x \<noteq> eid) es)\<rparr>)
                 (entityImpact (ent_name e) ''removed'' [''prisma/schema.prisma'']))))"
| "applyOperation w (AddEndpoint e) =
     (case endpoints w of
        None \<Rightarrow> Inl TypeError
      | Some eps \<Rightarrow>
          if list_ex (\<lambda>x. ep_path x = ep_path e \<and> ep_method x = ep_method e) eps
          then Inr (noEffect w
                 \<lparr> ctype = Naming,
                   message = ''Endpoint '' @ endpointLabel (ep_method e) (ep_path e) @ '' already exists'',
                   details = Some (JObj [(''method'', JStr (method_str (ep_method e))),
                                         (''path'', JStr (ep_path e))]) \<rparr>)
          else Inr (applied (w\<lparr>endpoints := Some (eps @ [e])\<rparr>)
                 (endpointImpact (ep_method e) (ep_path e) ''added''
                    [''openapi.json'', ''src/routes/'' @ sanitizePath (ep_path e) @ ''.ts''])))"
| "applyOperation w (UpdateEndpoint eid p) =
     (case endpoints w of
        None \<Rightarrow> Inl TypeError
      | Some eps \<Rightarrow>
          (case find (\<lambda>x. ep_id x = eid) eps of
             None \<Rightarrow> Inr (noEffect w
                 \<lparr> ctype = MissingField,
                   message = ''Endpoint '' @ eid @ '' not found'',
                   details = Some (JObj [(''endpointId'', JStr eid)]) \<rparr>)
           | Some e \<Rightarrow>
               (let newPath = (case pp_path p of None \<Rightarrow> ep_path e | Some v \<Rightarrow> v);
                    newMethod = (case pp_method p of None \<Rightarrow> ep_method e | Some v \<Rightarrow> v)
                in if (truthy (pp_path p) \<or> pp_method p \<noteq> None) \<and>
                      list_ex (\<lambda>other. ep_id other \<noteq> eid \<and> ep_path other = newPath \<and>
                                        ep_method other = newMethod) eps
                   then Inr (noEffect w
                     \<lparr> ctype = Naming,
                       message = ''Endpoint '' @ endpointLabel newMethod newPath @ '' already exists'',
                       details = Some (JObj [(''endpointId'', JStr eid), (''path'', JStr newPath),
                                             (''method'', JStr (method_str newMethod))]) \<rparr>)
                   else
                     (let e' = assignEndpoint e p in
                      Inr (applied
                        (w\<lparr>endpoints :=
                             Some (update_first (\<lambda>x. ep_id x = eid) (\<lambda>x. assignEndpoint x p) eps)\<rparr>)
                        (endpointImpact (ep_method e') (ep_path e') ''updated''
                           [''openapi.json'', ''src/routes/'' @ sanitizePath (ep_path e') @ ''.ts'']))))))"
| "applyOperation w (RemoveEndpoint eid) =
     (case endpoints w of
        None \<Rightarrow> Inl TypeError
      | Some eps \<Rightarrow>
          (case find (\<lambda>x. ep_id x = eid) eps of
             None \<Rightarrow> Inr (noEffect w
                 \<lparr> ctype = MissingField,
                   message = ''Endpoint '' @ eid @ '' not found for removal'',
                   details = Some (JObj [(''endpointId'', JStr eid)]) \<rparr>)
           | Some e \<Rightarrow>
               Inr (applied (w\<lparr>endpoints := Some (filter (\<lambda>x. ep_id x \<noteq> eid) eps)\<rparr>)
                 (endpointImpact (ep_method e) (ep_path e) ''removed'' [''openapi.json'']))))"
| "applyOperation w (UpdateFolderStructure f) =
     Inr (applied (w\<lparr>folder_structure := f\<rparr>)
       \<lparr> description = ''Folder structure updated'', affectedEntities = None,
         affectedEndpoints = None, affectedFiles = Some [''scaffolding''] \<rparr>)"
| "applyOperation w (Unsupported t) =
     Inr (noEffect w
       \<lparr> ctype = Validation,
         message = ''Unsupported operation '' @ (case t of None \<Rightarrow> ''unknown'' | Some v \<Rightarrow> v),
         details = None \<rparr>)"

text \<open>The \<open>for\<close> loop: operations in array order, each on the spec the previous one left.\<close>

fun applyOperations :: "apply_result \<Rightarrow> change_operation list \<Rightarrow> js_error + apply_result" where
  "applyOperations st [] = Inr st"
| "applyOperations st (operation # rest) =
     (case applyOperation (res_spec st) operation of
        Inl err \<Rightarrow> Inl err
      | Inr r \<Rightarrow>
          applyOperations
            \<lparr> res_spec = res_spec r,
              conflicts = conflicts st @ conflicts r,
              impacts = impacts st @ impacts r \<rparr> rest)"

text \<open>
  \<open>JSON.parse(JSON.stringify(currentSpec))\<close>: on a JSON tree the copy is the same value.
  (Where the copy lives, and what is shared with it, is the subject of the store model below.)
\<close>

definition jsonClone :: "spec \<Rightarrow> spec" where
  "jsonClone s = s"

definition applyChangeRequestToSpec :: "spec \<Rightarrow> change_request \<Rightarrow> js_error + apply_result" where
  "applyChangeRequestToSpec currentSpec changeRequest =
     (case operations changeRequest of
        None \<Rightarrow> Inl TypeError
      | Some ops \<Rightarrow>
          (case applyOperations
                  \<lparr> res_spec = jsonClone currentSpec, conflicts = [], impacts = [] \<rparr> ops of
             Inl err \<Rightarrow> Inl err
           | Inr st \<Rightarrow>
               (case validateSpec (res_spec st) of
                  Inl err \<Rightarrow> Inl err
                | Inr findings \<Rightarrow> Inr (st\<lparr>conflicts := conflicts st @ findings\<rparr>))))"

section \<open>Impact summary\<close>

record impact_summary =
  totalChanges :: nat
  modifiedEntities :: nat
  modifiedEndpoints :: nat
  modifiedFiles :: nat
  newEntities :: "string list"
  newEndpoints :: "string list"
  removedEntities :: "string list"
  removedEndpoints :: "string list"
  hasConflicts :: bool
  conflictCount :: nat

text \<open>\<open>haystack.includes(needle)\<close>: the needle occurs as a contiguous substring.\<close>

fun includes_str :: "string \<Rightarrow> string \<Rightarrow> bool" where
  "includes_str [] needle = (needle = [])"
| "includes_str (c # cs) needle =
     (take (length needle) (c # cs) = needle \<or> includes_str cs needle)"

text \<open>\<open>x ?? []\<close>\<close>

definition orEmpty :: "string list option \<Rightarrow> string list" where
  "orEmpty x = (case x of None \<Rightarrow> [] | Some v \<Rightarrow> v)"

text \<open>The names one impact contributes to a list such as \<open>newEntities\<close>.\<close>

definition pushed :: "string \<Rightarrow> (change_impact \<Rightarrow> string list option) \<Rightarrow> change_impact \<Rightarrow> string list" where
  "pushed word sel i = (if includes_str (description i) word then orEmpty (sel i) else [])"

text \<open>
  \<open>generateImpactSummary\<close>, on the impacts and conflicts of the preview. The three sets are
  JavaScript \<open>Set\<close>s; only their sizes are read.
\<close>

definition generateImpactSummary :: "change_impact list \<Rightarrow> change_conflict list \<Rightarrow> impact_summary" where
  "generateImpactSummary imps confs =
     \<lparr> totalChanges = length imps,
       modifiedEntities = card (set (concat (map (\<lambda>i. orEmpty (affectedEntities i)) imps))),
       modifiedEndpoints = card (set (concat (map (\<lambda>i. orEmpty (affectedEndpoints i)) imps))),
       modifiedFiles = card (set (concat (map (\<lambda>i. orEmpty (affectedFiles i)) imps))),
       newEntities = concat (map (pushed ''added'' affectedEntities) imps),
       newEndpoints = concat (map (pushed ''added'' affectedEndpoints) imps),
       removedEntities = concat (map (pushed ''removed'' affectedEntities) imps),
       removedEndpoints = concat (map (pushed ''removed'' affectedEndpoints) imps),
       hasConflicts = (length confs > 0),
       conflictCount = length confs \<rparr>"

section \<open>Vocabulary of the properties\<close>

text \<open>
  The relation graph of the specification: \<open>a\<close> has an edge to \<open>b\<close> for every relation of
  \<open>a\<close> whose target equals the id or the name of \<open>b\<close>.
\<close>

definition hasEdge :: "entity \<Rightarrow> entity \<Rightarrow> bool" where
  "hasEdge a b =
     list_ex (\<lambda>r. rel_target r = ent_id b \<or> rel_target r = ent_name b) (ent_relations a)"

definition reportsCycle :: "change_conflict list \<Rightarrow> bool" where
  "reportsCycle cs = list_ex (\<lambda>c. ctype c = CircularRelation) cs"

text \<open>Concrete documents for the examples.\<close>

definition mkEntity :: "string \<Rightarrow> string \<Rightarrow> string list \<Rightarrow> entity" where
  "mkEntity i n targets =
     \<lparr> ent_id = i, ent_name = n, ent_fields = [],
       ent_relations = map (\<lambda>t. \<lparr> rel_target = t, rel_type = OneToMany \<rparr>) targets \<rparr>"

definition mkSpec :: "entity list \<Rightarrow> endpoint list \<Rightarrow> spec" where
  "mkSpec es eps =
     \<lparr> requirements = Some [], entities = Some es, endpoints = Some eps,
       folder_structure = FolderStructure [], passengers = [] \<rparr>"

text \<open>
  A spec is well shaped when its three lists are present, as the \<open>Spec\<close> type demands.
\<close>

definition wellShaped :: "spec \<Rightarrow> bool" where
  "wellShaped s = (requirements s \<noteq> None \<and> entities s \<noteq> None \<and> endpoints s \<noteq> None)"

fun isUnsupported :: "change_operation \<Rightarrow> bool" where
  "isUnsupported (Unsupported t) = True"
| "isUnsupported operation = False"

definition validationConflicts :: "change_conflict list \<Rightarrow> change_conflict list" where
  "validationConflicts cs = filter (\<lambda>c. ctype c = Validation) cs"

text \<open>
  The operations of a request that report no conflict, each judged on the working spec it
  meets when the request runs from \<open>w\<close>.
\<close>

fun effective :: "spec \<Rightarrow> change_operation list \<Rightarrow> change_operation list" where
  "effective w [] = []"
| "effective w (operation # rest) =
     (case applyOperation w operation of
        Inl err \<Rightarrow> []
      | Inr r \<Rightarrow>
          if conflicts r = [] then operation # effective (res_spec r) rest
          else effective (res_spec r) rest)"


definition mkEndpoint :: "string \<Rightarrow> http_method \<Rightarrow> string \<Rightarrow> endpoint" where
  "mkEndpoint i m p = \<lparr> ep_id = i, ep_method = m, ep_path = p, ep_schema = JNull \<rparr>"

definition mkRequest :: "change_operation list \<Rightarrow> change_request" where
  "mkRequest ops = \<lparr> summary = ''change'', operations = Some ops \<rparr>"


definition renamed :: "entity \<Rightarrow> entity \<Rightarrow> entity" where
  "renamed E x = (if x = E then x\<lparr>ent_name := []\<rparr> else x)"

section \<open>The applier on a store of objects\<close>

text \<open>
  The definitions above take a spec and a request as values. At run time they are graphs of
  objects, and two statements of the applier act on object identity: \<open>push(operation.x)\<close>
  stores the request's own object in the working array, and \<open>Object.assign(found, patch)\<close>
  writes to whatever object \<open>find\<close> returned. To state what is and is not shared, the
  requirement, entity and endpoint objects are put in a store; an address is an index into
  it. Arrays are never mutated while shared (the working arrays come from the copy or from
  \<open>filter\<close>), so they remain lists, now of addresses.
\<close>

datatype obj = RequirementObj requirement | EntityObj entity | EndpointObj endpoint

type_synonym heap = "obj list"

definition readObj :: "heap \<Rightarrow> nat \<Rightarrow> obj option" where
  "readObj h a = (if a < length h then Some (h ! a) else None)"

definition getRequirement :: "heap \<Rightarrow> nat \<Rightarrow> requirement option" where
  "getRequirement h a = (case readObj h a of Some (RequirementObj r) \<Rightarrow> Some r | _ \<Rightarrow> None)"

definition getEntity :: "heap \<Rightarrow> nat \<Rightarrow> entity option" where
  "getEntity h a = (case readObj h a of Some (EntityObj e) \<Rightarrow> Some e | _ \<Rightarrow> None)"

definition getEndpoint :: "heap \<Rightarrow> nat \<Rightarrow> endpoint option" where
  "getEndpoint h a = (case readObj h a of Some (EndpointObj e) \<Rightarrow> Some e | _ \<Rightarrow> None)"

record spec_ref =
  requirement_refs :: "nat list option"
  entity_refs :: "nat list option"
  endpoint_refs :: "nat list option"
  folder_val :: folder
  passenger_vals :: "(string \<times> json) list"

text \<open>The add operations carry the address of the object in the request.\<close>

datatype ref_operation =
    RAddRequirement nat
  | RUpdateRequirement string requirement_patch
  | RRemoveRequirement string
  | RAddEntity nat
  | RUpdateEntity string entity_patch
  | RRemoveEntity string
  | RAddEndpoint nat
  | RUpdateEndpoint string endpoint_patch
  | RRemoveEndpoint string
  | RUpdateFolderStructure folder
  | RUnsupported "string option"

record store_result =
  sr_heap :: heap
  sr_spec :: spec_ref
  sr_conflicts :: "change_conflict list"
  sr_impacts :: "change_impact list"

text \<open>
  Reading a list of objects. An address that holds no object of the expected kind cannot
  occur in a typed program; the model answers \<open>None\<close>, and the applier turns that into an
  error.
\<close>

definition readAll :: "(heap \<Rightarrow> nat \<Rightarrow> 'a option) \<Rightarrow> heap \<Rightarrow> nat list \<Rightarrow> 'a list option" where
  "readAll get h refs = those (map (get h) refs)"

definition readList ::
  "(heap \<Rightarrow> nat \<Rightarrow> 'a option) \<Rightarrow> heap \<Rightarrow> nat list option \<Rightarrow> 'a list option option" where
  "readList get h refs =
     (case refs of None \<Rightarrow> Some None | Some as \<Rightarrow> map_option Some (readAll get h as))"

text \<open>The value of a spec in a store: what deep equality compares.\<close>

definition snapshot :: "heap \<Rightarrow> spec_ref \<Rightarrow> spec option" where
  "snapshot h s =
     (case readList getRequirement h (requirement_refs s) of
        None \<Rightarrow> None
      | Some rs \<Rightarrow>
          (case readList getEntity h (entity_refs s) of
             None \<Rightarrow> None
           | Some es \<Rightarrow>
               (case readList getEndpoint h (endpoint_refs s) of
                  None \<Rightarrow> None
                | Some eps \<Rightarrow>
                    Some \<lparr> requirements = rs, entities = es, endpoints = eps,
                           folder_structure = folder_val s,
                           passengers = passenger_vals s \<rparr>)))"

text \<open>
  \<open>JSON.parse(JSON.stringify(currentSpec))\<close>: every object of the spec is copied to a new
  address at the end of the store.
\<close>

fun cloneObjs :: "heap \<Rightarrow> nat list \<Rightarrow> (heap \<times> nat list) option" where
  "cloneObjs h [] = Some (h, [])"
| "cloneObjs h (a # as) =
     (case readObj h a of
        None \<Rightarrow> None
      | Some v \<Rightarrow>
          (case cloneObjs (h @ [v]) as of
             None \<Rightarrow> None
           | Some (h', as') \<Rightarrow> Some (h', length h # as')))"

definition cloneList :: "heap \<Rightarrow> nat list option \<Rightarrow> (heap \<times> nat list option) option" where
  "cloneList h refs =
     (case refs of
        None \<Rightarrow> Some (h, None)
      | Some as \<Rightarrow> map_option (\<lambda>(h', as'). (h', Some as')) (cloneObjs h as))"

definition cloneSpec :: "heap \<Rightarrow> spec_ref \<Rightarrow> (heap \<times> spec_ref) option" where
  "cloneSpec h s =
     (case cloneList h (requirement_refs s) of
        None \<Rightarrow> None
      | Some (h1, rs) \<Rightarrow>
          (case cloneList h1 (entity_refs s) of
             None \<Rightarrow> None
           | Some (h2, es) \<Rightarrow>
               (case cloneList h2 (endpoint_refs s) of
                  None \<Rightarrow> None
                | Some (h3, eps) \<Rightarrow>
                    Some (h3, s\<lparr>requirement_refs := rs, entity_refs := es,
                                endpoint_refs := eps\<rparr>))))"

definition skipped :: "heap \<Rightarrow> spec_ref \<Rightarrow> change_conflict \<Rightarrow> store_result" where
  "skipped h w c = \<lparr> sr_heap = h, sr_spec = w, sr_conflicts = [c], sr_impacts = [] \<rparr>"

definition committed :: "heap \<Rightarrow> spec_ref \<Rightarrow> change_impact \<Rightarrow> store_result" where
  "committed h w i = \<lparr> sr_heap = h, sr_spec = w, sr_conflicts = [], sr_impacts = [i] \<rparr>"

text \<open>
  One iteration of the loop, on the store \<open>h\<close> and the working spec \<open>w\<close>. The decisions,
  conflicts and impacts are those of \<open>applyOperation\<close>; what is new is that \<open>push\<close> stores the
  address found in the operation, and \<open>Object.assign\<close> writes at the address \<open>find\<close> returned.
  A thrown error is returned together with the store as it is at the throw, since the
  caller keeps the objects it passed in.
\<close>

fun applyOperation_refs ::
  "heap \<Rightarrow> spec_ref \<Rightarrow> ref_operation \<Rightarrow> (js_error \<times> heap) + store_result" where
  "applyOperation_refs h w (RAddRequirement a) =
     (case requirement_refs w of
        None \<Rightarrow> Inl (TypeError, h)
      | Some refs \<Rightarrow>
          (case readAll getRequirement h refs of
             None \<Rightarrow> Inl (TypeError, h)
           | Some rs \<Rightarrow>
               (case getRequirement h a of
                  None \<Rightarrow> Inl (TypeError, h)
                | Some q \<Rightarrow>
                    if list_ex (\<lambda>r. req_id r = req_id q) rs
                    then Inr (skipped h w
                           \<lparr> ctype = Naming,
                             message = ''Requirement with id '' @ req_id q @ '' already exists'',
                             details = Some (JObj [(''requirementId'', JStr (req_id q))]) \<rparr>)
                    else Inr (committed h (w\<lparr>requirement_refs := Some (refs @ [a])\<rparr>)
                           (requirementsImpact ''Requirement added'')))))"
| "applyOperation_refs h w (RUpdateRequirement rid p) =
     (case requirement_refs w of
        None \<Rightarrow> Inl (TypeError, h)
      | Some refs \<Rightarrow>
          (case readAll getRequirement h refs of
             None \<Rightarrow> Inl (TypeError, h)
           | Some rs \<Rightarrow>
               (case find (\<lambda>(a, r). req_id r = rid) (zip refs rs) of
                  None \<Rightarrow> Inr (skipped h w
                           \<lparr> ctype = MissingField,
                             message = ''Requirement '' @ rid @ '' not found'',
                             details = Some (JObj [(''requirementId'', JStr rid)]) \<rparr>)
                | Some (a, r) \<Rightarrow>
                    Inr (committed (h[a := RequirementObj (assignRequirement r p)]) w
                           (requirementsImpact ''Requirement updated'')))))"
| "applyOperation_refs h w (RRemoveRequirement rid) =
     (case requirement_refs w of
        None \<Rightarrow> Inl (TypeError, h)
      | Some refs \<Rightarrow>
          (case readAll getRequirement h refs of
             None \<Rightarrow> Inl (TypeError, h)
           | Some rs \<Rightarrow>
               (let kept = map fst (filter (\<lambda>(a, r). req_id r \<noteq> rid) (zip refs rs));
                    w' = w\<lparr>requirement_refs := Some kept\<rparr>
                in if length refs = length kept
                   then Inr (skipped h w'
                          \<lparr> ctype = MissingField,
                            message = ''Requirement '' @ rid @ '' not found for removal'',
                            details = Some (JObj [(''requirementId'', JStr rid)]) \<rparr>)
                   else Inr (committed h w' (requirementsImpact ''Requirement removed'')))))"
| "applyOperation_refs h w (RAddEntity a) =
     (case entity_refs w of
        None \<Rightarrow> Inl (TypeError, h)
      | Some refs \<Rightarrow>
          (case readAll getEntity h refs of
             None \<Rightarrow> Inl (TypeError, h)
           | Some es \<Rightarrow>
               (case getEntity h a of
                  None \<Rightarrow> Inl (TypeError, h)
                | Some e \<Rightarrow>
                    if list_ex (\<lambda>x. ent_name x = ent_name e) es
                    then Inr (skipped h w
                           \<lparr> ctype = Naming,
                             message = ''Entity with name '' @ ent_name e @ '' already exists'',
                             details = Some (JObj [(''entityName'', JStr (ent_name e))]) \<rparr>)
                    else Inr (committed h (w\<lparr>entity_refs := Some (refs @ [a])\<rparr>)
                           (entityImpact (ent_name e) ''added''
                              [''prisma/schema.prisma'',
                               ''src/entities/'' @ ent_name e @ ''.ts''])))))"
| "applyOperation_refs h w (RUpdateEntity eid p) =
     (case entity_refs w of
        None \<Rightarrow> Inl (TypeError, h)
      | Some refs \<Rightarrow>
          (case readAll getEntity h refs of
             None \<Rightarrow> Inl (TypeError, h)
           | Some es \<Rightarrow>
               (case find (\<lambda>(a, x). ent_id x = eid) (zip refs es) of
                  None \<Rightarrow> Inr (skipped h w
                           \<lparr> ctype = MissingField,
                             message = ''Entity '' @ eid @ '' not found'',
                             details = Some (JObj [(''entityId'', JStr eid)]) \<rparr>)
                | Some (a, e) \<Rightarrow>
                    if truthy (pe_name p) \<and>
                       list_ex (\<lambda>other. ent_id other \<noteq> eid \<and>
                                         Some (ent_name other) = pe_name p) es
                    then Inr (skipped h w
                           \<lparr> ctype = Naming,
                             message = ''Entity name '' @ the (pe_name p) @ '' already in use'',
                             details = Some (JObj [(''entityId'', JStr eid),
                                                   (''newName'', JStr (the (pe_name p)))]) \<rparr>)
                    else
                      (let e' = assignEntity e p in
                       Inr (committed (h[a := EntityObj e']) w
                              (entityImpact (ent_name e') ''updated''
                                 [''prisma/schema.prisma'',
                                  ''src/entities/'' @ ent_name e' @ ''.ts'']))))))"
| "applyOperation_refs h w (RRemoveEntity eid) =
     (case entity_refs w of
        None \<Rightarrow> Inl (TypeError, h)
      | Some refs \<Rightarrow>
          (case readAll getEntity h refs of
             None \<Rightarrow> Inl (TypeError, h)
           | Some es \<Rightarrow>
               (case find (\<lambda>(a, x). ent_id x = eid) (zip refs es) of
                  None \<Rightarrow> Inr (skipped h w
                           \<lparr> ctype = MissingField,
                             message = ''Entity '' @ eid @ '' not found for removal'',
                             details = Some (JObj [(''entityId'', JStr eid)]) \<rparr>)
                | Some (a, e) \<Rightarrow>
                    Inr (committed h
                           (w\<lparr>entity_refs :=
                                Some (map fst (filter (\<lambda>(a, x). ent_id x \<noteq> eid) (zip refs es)))\<rparr>)
                           (entityImpact (ent_name e) ''removed'' [''prisma/schema.prisma''])))))"
| "applyOperation_refs h w (RAddEndpoint a) =
     (case endpoint_refs w of
        None \<Rightarrow> Inl (TypeError, h)
      | Some refs \<Rightarrow>
          (case readAll getEndpoint h refs of
             None \<Rightarrow> Inl (TypeError, h)
           | Some eps \<Rightarrow>
               (case getEndpoint h a of
                  None \<Rightarrow> Inl (TypeError, h)
                | Some e \<Rightarrow>
                    if list_ex (\<lambda>x. ep_path x = ep_path e \<and> ep_method x = ep_method e) eps
                    then Inr (skipped h w
                           \<lparr> ctype = Naming,
                             message = ''Endpoint '' @ endpointLabel (ep_method e) (ep_path e) @
                                       '' already exists'',
                             details = Some (JObj [(''method'', JStr (method_str (ep_method e))),
                                                   (''path'', JStr (ep_path e))]) \<rparr>)
                    else Inr (committed h (w\<lparr>endpoint_refs := Some (refs @ [a])\<rparr>)
                           (endpointImpact (ep_method e) (ep_path e) ''added''
                              [''openapi.json'',
                               ''src/routes/'' @ sanitizePath (ep_path e) @ ''.ts''])))))"
| "applyOperation_refs h w (RUpdateEndpoint eid p) =
     (case endpoint_refs w of
        None \<Rightarrow> Inl (TypeError, h)
      | Some refs \<Rightarrow>
          (case readAll getEndpoint h refs of
             None \<Rightarrow> Inl (TypeError, h)
           | Some eps \<Rightarrow>
               (case find (\<lambda>(a, x). ep_id x = eid) (zip refs eps) of
                  None \<Rightarrow> Inr (skipped h w
                           \<lparr> ctype = MissingField,
                             message = ''Endpoint '' @ eid @ '' not found'',
                             details = Some (JObj [(''endpointId'', JStr eid)]) \<rparr>)
                | Some (a, e) \<Rightarrow>
                    (let newPath = (case pp_path p of None \<Rightarrow> ep_path e | Some v \<Rightarrow> v);
                         newMethod = (case pp_method p of None \<Rightarrow> ep_method e | Some v \<Rightarrow> v)
                     in if (truthy (pp_path p) \<or> pp_method p \<noteq> None) \<and>
                           list_ex (\<lambda>other. ep_id other \<noteq> eid \<and> ep_path other = newPath \<and>
                                             ep_method other = newMethod) eps
                        then Inr (skipped h w
                               \<lparr> ctype = Naming,
                                 message = ''Endpoint '' @ endpointLabel newMethod newPath @
                                           '' already exists'',
                                 details = Some (JObj [(''endpointId'', JStr eid),
                                                       (''path'', JStr newPath),
                                                       (''method'', JStr (method_str newMethod))]) \<rparr>)
                        else
                          (let e' = assignEndpoint e p in
                           Inr (committed (h[a := EndpointObj e']) w
                                  (endpointImpact (ep_method e') (ep_path e') ''updated''
                                     [''openapi.json'',
                                      ''src/routes/'' @ sanitizePath (ep_path e') @ ''.ts''])))))))"
| "applyOperation_refs h w (RRemoveEndpoint eid) =
     (case endpoint_refs w of
        None \<Rightarrow> Inl (TypeError, h)
      | Some refs \<Rightarrow>
          (case readAll getEndpoint h refs of
             None \<Rightarrow> Inl (TypeError, h)
           | Some eps \<Rightarrow>
               (case find (\<lambda>(a, x). ep_id x = eid) (zip refs eps) of
                  None \<Rightarrow> Inr (skipped h w
                           \<lparr> ctype = MissingField,
                             message = ''Endpoint '' @ eid @ '' not found for removal'',
                             details = Some (JObj [(''endpointId'', JStr eid)]) \<rparr>)
                | Some (a, e) \<Rightarrow>
                    Inr (committed h
                           (w\<lparr>endpoint_refs :=
                                Some (map fst (filter (\<lambda>(a, x). ep_id x \<noteq> eid) (zip refs eps)))\<rparr>)
                           (endpointImpact (ep_method e) (ep_path e) ''removed''
                              [''openapi.json''])))))"
| "applyOperation_refs h w (RUpdateFolderStructure f) =
     Inr (committed h (w\<lparr>folder_val := f\<rparr>)
       \<lparr> description = ''Folder structure updated'', affectedEntities = None,
         affectedEndpoints = None, affectedFiles = Some [''scaffolding''] \<rparr>)"
| "applyOperation_refs h w (RUnsupported t) =
     Inr (skipped h w
       \<lparr> ctype = Validation,
         message = ''Unsupported operation '' @ (case t of None \<Rightarrow> ''unknown'' | Some v \<Rightarrow> v),
         details = None \<rparr>)"

fun applyOperations_refs ::
  "store_result \<Rightarrow> ref_operation list \<Rightarrow> (js_error \<times> heap) + store_result" where
  "applyOperations_refs st [] = Inr st"
| "applyOperations_refs st (operation # rest) =
     (case applyOperation_refs (sr_heap st) (sr_spec st) operation of
        Inl err \<Rightarrow> Inl err
      | Inr r \<Rightarrow>
          applyOperations_refs
            \<lparr> sr_heap = sr_heap r, sr_spec = sr_spec r,
              sr_conflicts = sr_conflicts st @ sr_conflicts r,
              sr_impacts = sr_impacts st @ sr_impacts r \<rparr> rest)"

record ref_request =
  rr_summary :: string
  rr_operations :: "ref_operation list option"

text \<open>
  \<open>applyChangeRequestToSpec\<close> on the store: copy, loop, validate the values the working spec
  then has. The result carries the store the call leaves behind.
\<close>

definition applyChangeRequestToSpec_refs ::
  "heap \<Rightarrow> spec_ref \<Rightarrow> ref_request \<Rightarrow> (js_error \<times> heap) + store_result" where
  "applyChangeRequestToSpec_refs h currentSpec changeRequest =
     (case cloneSpec h currentSpec of
        None \<Rightarrow> Inl (TypeError, h)
      | Some (h1, workingSpec) \<Rightarrow>
          (case rr_operations changeRequest of
             None \<Rightarrow> Inl (TypeError, h1)
           | Some ops \<Rightarrow>
               (case applyOperations_refs
                       \<lparr> sr_heap = h1, sr_spec = workingSpec,
                         sr_conflicts = [], sr_impacts = [] \<rparr> ops of
                  Inl err \<Rightarrow> Inl err
                | Inr st \<Rightarrow>
                    (case snapshot (sr_heap st) (sr_spec st) of
                       None \<Rightarrow> Inl (TypeError, sr_heap st)
                     | Some v \<Rightarrow>
                         (case validateSpec v of
                            Inl err \<Rightarrow> Inl (err, sr_heap st)
                          | Inr findings \<Rightarrow>
                              Inr (st\<lparr>sr_conflicts := sr_conflicts st @ findings\<rparr>))))))"

text \<open>The store a call leaves behind, whether it returns or throws.\<close>

definition storeAfter :: "(js_error \<times> heap) + store_result \<Rightarrow> heap" where
  "storeAfter outcome = (case outcome of Inl (err, h) \<Rightarrow> h | Inr r \<Rightarrow> sr_heap r)"

text \<open>The addresses a spec refers to, and the addresses a request hands over.\<close>

definition refsOf :: "nat list option \<Rightarrow> nat set" where
  "refsOf refs = (case refs of None \<Rightarrow> {} | Some as \<Rightarrow> set as)"

definition specRefs :: "spec_ref \<Rightarrow> nat set" where
  "specRefs s = refsOf (requirement_refs s) \<union> refsOf (entity_refs s) \<union> refsOf (endpoint_refs s)"

fun addedRef :: "ref_operation \<Rightarrow> nat set" where
  "addedRef (RAddRequirement a) = {a}"
| "addedRef (RAddEntity a) = {a}"
| "addedRef (RAddEndpoint a) = {a}"
| "addedRef operation = {}"

definition addedRefs :: "ref_operation list \<Rightarrow> nat set" where
  "addedRefs ops = \<Union> (set (map addedRef ops))"

text \<open>Concrete stores for the examples.\<close>

definition storedReq :: requirement where
  "storedReq = \<lparr> req_id = ''r1'', req_description = ''as stored'' \<rparr>"

definition newReq :: requirement where
  "newReq = \<lparr> req_id = ''r2'', req_description = ''new'' \<rparr>"

definition specAt0 :: spec_ref where
  "specAt0 = \<lparr> requirement_refs = Some [0], entity_refs = Some [], endpoint_refs = Some [],
               folder_val = FolderStructure [], passenger_vals = [] \<rparr>"

definition redescribe :: requirement_patch where
  "redescribe = \<lparr> rp_id = None, rp_description = Some ''changed'' \<rparr>"

definition mkRefRequest :: "ref_operation list \<Rightarrow> ref_request" where
  "mkRefRequest ops = \<lparr> rr_summary = ''change'', rr_operations = Some ops \<rparr>"

text \<open>
  The request as a value: every add operation with the object its address holds in the
  store. The addresses handed over, in order.
\<close>

fun valueOp :: "heap \<Rightarrow> ref_operation \<Rightarrow> change_operation option" where
  "valueOp h (RAddRequirement a) = map_option AddRequirement (getRequirement h a)"
| "valueOp h (RUpdateRequirement rid p) = Some (UpdateRequirement rid p)"
| "valueOp h (RRemoveRequirement rid) = Some (RemoveRequirement rid)"
| "valueOp h (RAddEntity a) = map_option AddEntity (getEntity h a)"
| "valueOp h (RUpdateEntity eid p) = Some (UpdateEntity eid p)"
| "valueOp h (RRemoveEntity eid) = Some (RemoveEntity eid)"
| "valueOp h (RAddEndpoint a) = map_option AddEndpoint (getEndpoint h a)"
| "valueOp h (RUpdateEndpoint eid p) = Some (UpdateEndpoint eid p)"
| "valueOp h (RRemoveEndpoint eid) = Some (RemoveEndpoint eid)"
| "valueOp h (RUpdateFolderStructure f) = Some (UpdateFolderStructure f)"
| "valueOp h (RUnsupported t) = Some (Unsupported t)"

fun addedAddr :: "ref_operation \<Rightarrow> nat list" where
  "addedAddr (RAddRequirement a) = [a]"
| "addedAddr (RAddEntity a) = [a]"
| "addedAddr (RAddEndpoint a) = [a]"
| "addedAddr operation = []"

text \<open>The three reference lists of a spec hold no address twice.\<close>

definition refList :: "nat list option \<Rightarrow> nat list" where
  "refList refs = (case refs of None \<Rightarrow> [] | Some as \<Rightarrow> as)"

definition distinctRefs :: "spec_ref \<Rightarrow> bool" where
  "distinctRefs w =
     (distinct (refList (requirement_refs w)) \<and> distinct (refList (entity_refs w)) \<and>
      distinct (refList (endpoint_refs w)))"

text \<open>A result on the store and a result on values say the same.\<close>

definition agrees :: "store_result \<Rightarrow> apply_result \<Rightarrow> bool" where
  "agrees r vr =
     (snapshot (sr_heap r) (sr_spec r) = Some (res_spec vr) \<and>
      sr_conflicts r = conflicts vr \<and> sr_impacts r = impacts vr)"

text \<open>An error of the store model is the error of the value model, with the store at the throw.\<close>

definition thrown :: "js_error \<times> heap \<Rightarrow> js_error \<Rightarrow> bool" where
  [simp]: "thrown x err = (fst x = err)"

section \<open>A request as it arrives\<close>

text \<open>
  Every caller hands the applier a change request that was parsed from JSON on its own: the
  body of the HTTP request (\<open>express.json\<close>, then \<open>req.body.changeRequest\<close>) or the stored
  feature. Parsing creates a new object for the requirement, entity or endpoint of every add
  operation, at the end of the store; the other operations carry only strings and patches.
\<close>

fun parseOperation :: "heap \<Rightarrow> change_operation \<Rightarrow> heap \<times> ref_operation" where
  "parseOperation h (AddRequirement q) = (h @ [RequirementObj q], RAddRequirement (length h))"
| "parseOperation h (UpdateRequirement rid p) = (h, RUpdateRequirement rid p)"
| "parseOperation h (RemoveRequirement rid) = (h, RRemoveRequirement rid)"
| "parseOperation h (AddEntity e) = (h @ [EntityObj e], RAddEntity (length h))"
| "parseOperation h (UpdateEntity eid p) = (h, RUpdateEntity eid p)"
| "parseOperation h (RemoveEntity eid) = (h, RRemoveEntity eid)"
| "parseOperation h (AddEndpoint e) = (h @ [EndpointObj e], RAddEndpoint (length h))"
| "parseOperation h (UpdateEndpoint eid p) = (h, RUpdateEndpoint eid p)"
| "parseOperation h (RemoveEndpoint eid) = (h, RRemoveEndpoint eid)"
| "parseOperation h (UpdateFolderStructure f) = (h, RUpdateFolderStructure f)"
| "parseOperation h (Unsupported t) = (h, RUnsupported t)"

fun parseOperations :: "heap \<Rightarrow> change_operation list \<Rightarrow> heap \<times> ref_operation list" where
  "parseOperations h [] = (h, [])"
| "parseOperations h (operation # rest) =
     (case parseOperation h operation of
        (h1, r) \<Rightarrow> (case parseOperations h1 rest of (h2, rs) \<Rightarrow> (h2, r # rs)))"

definition parseRequest :: "heap \<Rightarrow> change_request \<Rightarrow> heap \<times> ref_request" where
  "parseRequest h changeRequest =
     (case operations changeRequest of
        None \<Rightarrow> (h, \<lparr> rr_summary = summary changeRequest, rr_operations = None \<rparr>)
      | Some ops \<Rightarrow>
          (case parseOperations h ops of
             (h', rs) \<Rightarrow> (h', \<lparr> rr_summary = summary changeRequest, rr_operations = Some rs \<rparr>)))"

text \<open>A spec whose entities list is missing, for a call that throws after a write.\<close>

definition specNoEntities :: spec_ref where
  "specNoEntities = \<lparr> requirement_refs = Some [0], entity_refs = None, endpoint_refs = Some [],
                      folder_val = FolderStructure [], passenger_vals = [] \<rparr>"

section \<open>The depth-first search returns\<close>

text \<open>
  Every call of \<open>visit\<close> that goes past its two guards adds a new id to \<open>visited\<close>, so the
  nesting depth is bounded by the number of ids, and the budget of
  \<open>validateCircularRelations\<close> is never used up.
\<close>

lemma findTarget_mem: "findTarget es t = Some x \<Longrightarrow> x \<in> set es"
  by (auto simp: findTarget_def find_Some_iff)

lemma unvisited_mono:
  "visited st \<subseteq> visited st' \<Longrightarrow>
   card (ent_id ` set es - visited st') \<le> card (ent_id ` set es - visited st)"
  by (rule card_mono) auto

lemma unvisited_insert:
  "e \<in> set es \<Longrightarrow> ent_id e \<notin> V \<Longrightarrow>
   card (ent_id ` set es - insert (ent_id e) V) < card (ent_id ` set es - V)"
  by (rule psubset_card_mono) auto

lemma visitRelations_returns:
  assumes P: "\<And>st e. e \<in> set es \<Longrightarrow> card (ent_id ` set es - visited st) < n \<Longrightarrow>
                \<exists>b st'. visit n es st e = Some (b, st') \<and> visited st \<subseteq> visited st'"
  shows "card (ent_id ` set es - visited st) < n \<Longrightarrow>
         \<exists>b st'. visitRelations n es st rs = Some (b, st') \<and> visited st \<subseteq> visited st'"
proof (induction rs arbitrary: st)
  case Nil
  then show ?case by auto
next
  case (Cons r rs)
  show ?case
  proof (cases "findTarget es (rel_target r)")
    case None
    with Cons show ?thesis by simp
  next
    case (Some t)
    then have "t \<in> set es" by (rule findTarget_mem)
    with P Cons.prems obtain b st1 where
      v: "visit n es st t = Some (b, st1)" and sub: "visited st \<subseteq> visited st1"
      by blast
    show ?thesis
    proof (cases b)
      case True
      with Some v sub show ?thesis by auto
    next
      case False
      from sub Cons.prems have "card (ent_id ` set es - visited st1) < n"
        using unvisited_mono [OF sub, of es] by simp
      from Cons.IH [OF this] obtain b' st2 where
        "visitRelations n es st1 rs = Some (b', st2)" "visited st1 \<subseteq> visited st2"
        by blast
      with Some v sub False show ?thesis by auto
    qed
  qed
qed

lemma visit_returns:
  "e \<in> set es \<Longrightarrow> card (ent_id ` set es - visited st) < n \<Longrightarrow>
   \<exists>b st'. visit n es st e = Some (b, st') \<and> visited st \<subseteq> visited st'"
proof (induction n arbitrary: st e)
  case 0
  then show ?case by simp
next
  case (Suc n)
  show ?case
  proof (cases "ent_id e \<in> stack st \<or> ent_id e \<in> visited st")
    case True
    then show ?thesis by auto
  next
    case False
    let ?st1 = "st\<lparr>visited := insert (ent_id e) (visited st),
                    stack := insert (ent_id e) (stack st)\<rparr>"
    from False Suc.prems have "card (ent_id ` set es - visited ?st1) < n"
      using unvisited_insert [of e es "visited st"] by simp
    from visitRelations_returns [of es n ?st1 "ent_relations e", OF Suc.IH this]
    obtain b st2 where
      r: "visitRelations n es ?st1 (ent_relations e) = Some (b, st2)"
      and sub: "visited ?st1 \<subseteq> visited st2"
      by blast
    from False r sub show ?thesis by (cases b) auto
  qed
qed

lemma visitAll_returns:
  "set rest \<subseteq> set es \<Longrightarrow> card (ent_id ` set es) < n \<Longrightarrow>
   \<exists>st'. visitAll n es st rest = Some st'"
proof (induction rest arbitrary: st)
  case Nil
  then show ?case by simp
next
  case (Cons e rest)
  have "card (ent_id ` set es - visited st) \<le> card (ent_id ` set es)"
    by (rule card_mono) auto
  with Cons.prems have "card (ent_id ` set es - visited st) < n" by simp
  moreover from Cons.prems have "e \<in> set es" by simp
  ultimately obtain b st1 where "visit n es st e = Some (b, st1)"
    using visit_returns by blast
  with Cons show ?case by simp
qed

lemma validateCircularRelations_returns:
  "\<exists>cs. validateCircularRelations es = Some cs"
proof -
  have "card (ent_id ` set es) \<le> length es"
    by (meson card_image_le card_length le_trans List.finite_set)
  then have "card (ent_id ` set es) < Suc (length es)" by simp
  from visitAll_returns [OF subset_refl this]
  show ?thesis by (auto simp: validateCircularRelations_def)
qed

section \<open>What the depth-first search reports\<close>

lemma found_grows:
  "visit n es st e = Some (b, st') \<Longrightarrow>
     \<exists>extra. found st' = found st @ extra \<and> list_all (\<lambda>c. ctype c = CircularRelation) extra"
  "visitRelations n es st rs = Some (b, st') \<Longrightarrow>
     \<exists>extra. found st' = found st @ extra \<and> list_all (\<lambda>c. ctype c = CircularRelation) extra"
proof (induction n es st e and n es st rs arbitrary: b st' and b st'
       rule: visit_visitRelations.induct)
  case (1 es st e)
  then show ?case by simp
next
  case (2 n es st e)
  then show ?case
    by (fastforce simp: circular_def split: if_splits option.splits bool.splits)
next
  case (3 n es st)
  then show ?case by simp
next
  case (4 n es st r rs)
  then show ?case
    by (fastforce split: if_splits option.splits bool.splits)
qed

lemma visitAll_found_grows:
  "visitAll n es st rest = Some st' \<Longrightarrow>
     \<exists>extra. found st' = found st @ extra \<and> list_all (\<lambda>c. ctype c = CircularRelation) extra"
proof (induction rest arbitrary: st)
  case Nil
  then show ?case by simp
next
  case (Cons e rest)
  show ?case
  proof (cases "ent_id e \<in> visited st")
    case True
    with Cons show ?thesis by simp
  next
    case False
    with Cons.prems obtain b st1 where v: "visit n es st e = Some (b, st1)"
      and r: "visitAll n es st1 rest = Some st'"
      by (auto split: option.splits)
    from found_grows(1) [OF v] Cons.IH [OF r] show ?thesis by auto
  qed
qed

lemma cycle_found:
  "\<forall>x\<in>set es. \<exists>r\<in>set (ent_relations x). findTarget es (rel_target r) \<noteq> None \<Longrightarrow>
   e \<in> set es \<Longrightarrow> stack st = visited st \<Longrightarrow> visit n es st e = Some (b, st') \<Longrightarrow>
     b \<and> (\<exists>c\<in>set (found st'). ctype c = CircularRelation)"
  "\<forall>x\<in>set es. \<exists>r\<in>set (ent_relations x). findTarget es (rel_target r) \<noteq> None \<Longrightarrow>
   \<exists>r\<in>set rs. findTarget es (rel_target r) \<noteq> None \<Longrightarrow>
   stack st = visited st \<Longrightarrow> visitRelations n es st rs = Some (b, st') \<Longrightarrow>
     b \<and> (\<exists>c\<in>set (found st'). ctype c = CircularRelation)"
proof (induction n es st e and n es st rs arbitrary: b st' and b st'
       rule: visit_visitRelations.induct)
  case (1 es st e)
  then show ?case by simp
next
  case (2 n es st e)
  show ?case
  proof (cases "ent_id e \<in> stack st")
    case True
    with "2.prems" show ?thesis by (auto simp: circular_def)
  next
    case False
    with "2.prems" have nv: "ent_id e \<notin> visited st" by simp
    let ?st1 = "st\<lparr>visited := insert (ent_id e) (visited st),
                    stack := insert (ent_id e) (stack st)\<rparr>"
    from "2.prems" False nv obtain b1 st1 where
      r: "visitRelations n es ?st1 (ent_relations e) = Some (b1, st1)"
      by (auto split: option.splits)
    have "b1 \<and> (\<exists>c\<in>set (found st1). ctype c = CircularRelation)"
      using "2.IH" [OF False nv "2.prems"(1) _ _ r] "2.prems" by simp
    with "2.prems" False nv r show ?thesis by auto
  qed
next
  case (3 n es st)
  then show ?case by simp
next
  case (4 n es st r rs)
  show ?case
  proof (cases "findTarget es (rel_target r)")
    case None
    with "4.prems" "4.IH"(1) show ?thesis by auto
  next
    case (Some t)
    then have t: "t \<in> set es" by (rule findTarget_mem)
    from Some "4.prems" obtain b1 st1 where v: "visit n es st t = Some (b1, st1)"
      by (auto split: option.splits)
    from "4.IH"(2) [OF Some "4.prems"(1) t "4.prems"(3) v]
    have "b1 \<and> (\<exists>c\<in>set (found st1). ctype c = CircularRelation)" .
    with Some v "4.prems" show ?thesis by auto
  qed
qed

lemma acyclic_quiet:
  fixes rank :: "entity \<Rightarrow> nat"
  shows
  "inj_on ent_id (set es) \<Longrightarrow>
   (\<forall>a\<in>set es. \<forall>r\<in>set (ent_relations a). \<forall>t.
       findTarget es (rel_target r) = Some t \<longrightarrow> rank t < rank a) \<Longrightarrow>
   e \<in> set es \<Longrightarrow> (\<forall>x\<in>set es. ent_id x \<in> stack st \<longrightarrow> rank e < rank x) \<Longrightarrow>
   visit n es st e = Some (b, st') \<Longrightarrow>
     \<not> b \<and> found st' = found st \<and> stack st' = stack st"
  "inj_on ent_id (set es) \<Longrightarrow>
   (\<forall>a\<in>set es. \<forall>r\<in>set (ent_relations a). \<forall>t.
       findTarget es (rel_target r) = Some t \<longrightarrow> rank t < rank a) \<Longrightarrow>
   (\<forall>r\<in>set rs. \<forall>t. findTarget es (rel_target r) = Some t \<longrightarrow>
       (\<forall>x\<in>set es. ent_id x \<in> stack st \<longrightarrow> rank t < rank x)) \<Longrightarrow>
   visitRelations n es st rs = Some (b, st') \<Longrightarrow>
     \<not> b \<and> found st' = found st \<and> stack st' = stack st"
proof (induction n es st e and n es st rs arbitrary: b st' and b st'
       rule: visit_visitRelations.induct)
  case (1 es st e)
  then show ?case by simp
next
  case (2 n es st e)
  from "2.prems"(3,4) have ns: "ent_id e \<notin> stack st" by auto
  show ?case
  proof (cases "ent_id e \<in> visited st")
    case True
    with ns "2.prems" show ?thesis by simp
  next
    case False
    let ?st1 = "st\<lparr>visited := insert (ent_id e) (visited st),
                    stack := insert (ent_id e) (stack st)\<rparr>"
    from "2.prems" ns False obtain b1 st1 where
      r: "visitRelations n es ?st1 (ent_relations e) = Some (b1, st1)"
      by (auto split: option.splits)
    have below: "\<forall>r\<in>set (ent_relations e). \<forall>t. findTarget es (rel_target r) = Some t \<longrightarrow>
       (\<forall>x\<in>set es. ent_id x \<in> stack ?st1 \<longrightarrow> rank t < rank x)"
    proof (intro ballI allI impI)
      fix r t x
      assume r: "r \<in> set (ent_relations e)" and t: "findTarget es (rel_target r) = Some t"
        and x: "x \<in> set es" and xs: "ent_id x \<in> stack ?st1"
      from "2.prems"(2,3) r t have te: "rank t < rank e" by blast
      show "rank t < rank x"
      proof (cases "ent_id x = ent_id e")
        case True
        with "2.prems"(1,3) x have "x = e" by (auto dest: inj_onD)
        with te show ?thesis by simp
      next
        case False
        with xs have "ent_id x \<in> stack st" by simp
        with "2.prems"(4) x have "rank e < rank x" by blast
        with te show ?thesis by simp
      qed
    qed
    from "2.IH" [OF ns False "2.prems"(1,2) below r]
    have "\<not> b1 \<and> found st1 = found ?st1 \<and> stack st1 = stack ?st1" .
    with "2.prems" ns False r show ?thesis by auto
  qed
next
  case (3 n es st)
  then show ?case by simp
next
  case (4 n es st r rs)
  show ?case
  proof (cases "findTarget es (rel_target r)")
    case None
    with "4.prems" "4.IH"(1) show ?thesis by auto
  next
    case (Some t)
    then have t: "t \<in> set es" by (rule findTarget_mem)
    from Some "4.prems" obtain b1 st1 where v: "visit n es st t = Some (b1, st1)"
      by (auto split: option.splits)
    from "4.prems"(3) Some
    have "\<forall>x\<in>set es. ent_id x \<in> stack st \<longrightarrow> rank t < rank x" by simp
    from "4.IH"(2) [OF Some "4.prems"(1,2) t this v]
    have q: "\<not> b1 \<and> found st1 = found st \<and> stack st1 = stack st" .
    with Some v "4.prems"(4) have c: "visitRelations n es st1 rs = Some (b, st')" by simp
    have "\<forall>r\<in>set rs. \<forall>t. findTarget es (rel_target r) = Some t \<longrightarrow>
       (\<forall>x\<in>set es. ent_id x \<in> stack st1 \<longrightarrow> rank t < rank x)"
      using "4.prems"(3) q by simp
    moreover from q have "b1 = False" by simp
    ultimately show ?thesis
      using "4.IH"(3) [OF Some v refl _ "4.prems"(1,2) _ c] q by simp
  qed
qed

section \<open>Cycle detection\<close>

lemma findTarget_hasEdge:
  "r \<in> set (ent_relations a) \<Longrightarrow> findTarget es (rel_target r) = Some t \<Longrightarrow> hasEdge a t"
  by (auto simp: findTarget_def find_Some_iff hasEdge_def list_ex_iff)

lemma hasEdge_findTarget:
  assumes "hasEdge a b" and b: "b \<in> set es"
  shows "\<exists>r\<in>set (ent_relations a). findTarget es (rel_target r) \<noteq> None"
proof -
  from assms obtain r where r: "r \<in> set (ent_relations a)"
    and "rel_target r = ent_id b \<or> rel_target r = ent_name b"
    by (auto simp: hasEdge_def list_ex_iff)
  then have "ent_name b = rel_target r \<or> ent_id b = rel_target r" by auto
  with b have "findTarget es (rel_target r) \<noteq> None"
    unfolding findTarget_def find_None_iff by blast
  with r show ?thesis by blast
qed

lemma entityConflicts_types:
  "c \<in> set (entityConflicts seen es) \<Longrightarrow> ctype c = Naming \<or> ctype c = MissingField"
  by (induction es arbitrary: seen)
     (auto simp: duplicateEntity_def fieldConflicts_def invalidField_def split: if_splits)

lemma endpointConflicts_types:
  "c \<in> set (endpointConflicts seen eps) \<Longrightarrow> ctype c = Naming"
  by (induction eps arbitrary: seen) (auto simp: duplicateEndpoint_def split: if_splits)

lemma validateCircular_cycle:
  assumes H: "\<forall>x\<in>set es. \<exists>r\<in>set (ent_relations x). findTarget es (rel_target r) \<noteq> None"
    and ne: "es \<noteq> []"
  shows "\<exists>cs. validateCircularRelations es = Some cs \<and> reportsCycle cs"
proof -
  from validateCircularRelations_returns obtain cs where
    cs: "validateCircularRelations es = Some cs" by blast
  from ne obtain e rest where es: "es = e # rest" by (cases es) auto
  let ?init = "\<lparr>visited = {}, stack = {}, found = []\<rparr>"
  from cs obtain st' where
    all: "visitAll (Suc (length es)) es ?init (e # rest) = Some st'" and f: "cs = found st'"
    by (auto simp: validateCircularRelations_def es)
  from all obtain b st1 where v: "visit (Suc (length es)) es ?init e = Some (b, st1)"
    and r: "visitAll (Suc (length es)) es st1 rest = Some st'"
    by (auto split: option.splits)
  have "e \<in> set es" by (simp add: es)
  from cycle_found(1) [OF H this _ v]
  have "\<exists>c\<in>set (found st1). ctype c = CircularRelation" by simp
  with visitAll_found_grows [OF r] f have "reportsCycle cs"
    by (auto simp: reportsCycle_def list_ex_iff)
  with cs show ?thesis by simp
qed

lemma visitAll_quiet:
  fixes rank :: "entity \<Rightarrow> nat"
  assumes inj: "inj_on ent_id (set es)"
    and dec: "\<forall>a\<in>set es. \<forall>r\<in>set (ent_relations a). \<forall>t.
       findTarget es (rel_target r) = Some t \<longrightarrow> rank t < rank a"
  shows "set rest \<subseteq> set es \<Longrightarrow> stack st = {} \<Longrightarrow> visitAll n es st rest = Some st' \<Longrightarrow>
         found st' = found st"
proof (induction rest arbitrary: st)
  case Nil
  then show ?case by simp
next
  case (Cons e rest)
  show ?case
  proof (cases "ent_id e \<in> visited st")
    case True
    with Cons show ?thesis by simp
  next
    case False
    with Cons.prems obtain b st1 where v: "visit n es st e = Some (b, st1)"
      and r: "visitAll n es st1 rest = Some st'"
      by (auto split: option.splits)
    from Cons.prems have e: "e \<in> set es" by simp
    from acyclic_quiet(1) [OF inj dec e _ v] Cons.prems(2)
    have q: "found st1 = found st \<and> stack st1 = {}" by simp
    with Cons.IH [OF _ _ r] Cons.prems(1) show ?thesis by simp
  qed
qed

lemma validateCircular_acyclic:
  fixes rank :: "entity \<Rightarrow> nat"
  assumes inj: "inj_on ent_id (set es)"
    and dec: "\<forall>a\<in>set es. \<forall>r\<in>set (ent_relations a). \<forall>t.
       findTarget es (rel_target r) = Some t \<longrightarrow> rank t < rank a"
  shows "validateCircularRelations es = Some []"
proof -
  from validateCircularRelations_returns obtain cs where
    cs: "validateCircularRelations es = Some cs" by blast
  then obtain st' where
    all: "visitAll (Suc (length es)) es \<lparr>visited = {}, stack = {}, found = []\<rparr> es = Some st'"
    and f: "cs = found st'"
    by (auto simp: validateCircularRelations_def)
  from visitAll_quiet [OF inj dec subset_refl _ all] f cs show ?thesis by simp
qed

text \<open>
  Claim C5, as the code has it. For a spec whose entities are exactly \<open>A\<close>, \<open>B\<close>, \<open>C\<close>:
  if the relations form the cycle \<open>A \<rightarrow> B \<rightarrow> C \<rightarrow> A\<close>, the validator returns and reports a
  \<open>circular-relation\<close> conflict; if the three ids are pairwise different and the relation
  graph is exactly the chain \<open>A \<rightarrow> B \<rightarrow> C\<close>, it returns and reports none.
\<close>

theorem cycle_detection:
  "entities s = Some es \<Longrightarrow> endpoints s = Some eps \<Longrightarrow> set es = {A, B, C} \<Longrightarrow>
   (hasEdge A B \<and> hasEdge B C \<and> hasEdge C A \<longrightarrow>
      (\<exists>cs. validateSpec s = Inr cs \<and> reportsCycle cs)) \<and>
   (ent_id A \<noteq> ent_id B \<and> ent_id B \<noteq> ent_id C \<and> ent_id A \<noteq> ent_id C \<and>
    hasEdge A B \<and> hasEdge B C \<and>
    \<not> hasEdge A A \<and> \<not> hasEdge A C \<and> \<not> hasEdge B A \<and> \<not> hasEdge B B \<and>
    \<not> hasEdge C A \<and> \<not> hasEdge C B \<and> \<not> hasEdge C C \<longrightarrow>
      (\<exists>cs. validateSpec s = Inr cs \<and> \<not> reportsCycle cs))"
proof (intro conjI impI)
  assume s: "entities s = Some es" "endpoints s = Some eps" and abc: "set es = {A, B, C}"
  assume cyc: "hasEdge A B \<and> hasEdge B C \<and> hasEdge C A"
  have "\<forall>x\<in>set es. \<exists>r\<in>set (ent_relations x). findTarget es (rel_target r) \<noteq> None"
    using cyc abc hasEdge_findTarget [of A B es] hasEdge_findTarget [of B C es]
      hasEdge_findTarget [of C A es] by auto
  moreover from abc have "es \<noteq> []" by auto
  ultimately obtain cs where "validateCircularRelations es = Some cs" "reportsCycle cs"
    using validateCircular_cycle by blast
  with s show "\<exists>cs. validateSpec s = Inr cs \<and> reportsCycle cs"
    by (auto simp: validateSpec_def reportsCycle_def)
next
  assume s: "entities s = Some es" "endpoints s = Some eps" and abc: "set es = {A, B, C}"
  assume ch: "ent_id A \<noteq> ent_id B \<and> ent_id B \<noteq> ent_id C \<and> ent_id A \<noteq> ent_id C \<and>
    hasEdge A B \<and> hasEdge B C \<and>
    \<not> hasEdge A A \<and> \<not> hasEdge A C \<and> \<not> hasEdge B A \<and> \<not> hasEdge B B \<and>
    \<not> hasEdge C A \<and> \<not> hasEdge C B \<and> \<not> hasEdge C C"
  define rank :: "entity \<Rightarrow> nat" where
    "rank x = (if x = A then 2 else if x = B then 1 else 0)" for x
  from ch abc have inj: "inj_on ent_id (set es)" by (auto simp: inj_on_def)
  have dec: "\<forall>a\<in>set es. \<forall>r\<in>set (ent_relations a). \<forall>t.
       findTarget es (rel_target r) = Some t \<longrightarrow> rank t < rank a"
  proof (intro ballI allI impI)
    fix a r t
    assume a: "a \<in> set es" and r: "r \<in> set (ent_relations a)"
      and t: "findTarget es (rel_target r) = Some t"
    from t have "t \<in> set es" by (rule findTarget_mem)
    moreover from r t have "hasEdge a t" by (rule findTarget_hasEdge)
    ultimately show "rank t < rank a"
      using a abc ch by (auto simp: rank_def)
  qed
  from validateCircular_acyclic [OF inj dec] s
  have "validateSpec s = Inr (entityConflicts {} es @ endpointConflicts {} eps)"
    by (simp add: validateSpec_def)
  moreover have "\<not> reportsCycle (entityConflicts {} es @ endpointConflicts {} eps)"
    using entityConflicts_types endpointConflicts_types
    by (fastforce simp: reportsCycle_def list_ex_iff)
  ultimately show "\<exists>cs. validateSpec s = Inr cs \<and> \<not> reportsCycle cs" by simp
qed

text \<open>The theorem at a cycle and at a chain.\<close>

theorem cycle_detection_witness:
  "(\<exists>cs. validateSpec (mkSpec [mkEntity ''1'' ''A'' [''B''], mkEntity ''2'' ''B'' [''3''],
                                 mkEntity ''3'' ''C'' [''A'']] []) = Inr cs \<and> reportsCycle cs) \<and>
   (\<exists>cs. validateSpec (mkSpec [mkEntity ''1'' ''A'' [''B''], mkEntity ''2'' ''B'' [''3''],
                                 mkEntity ''3'' ''C'' []] []) = Inr cs \<and> \<not> reportsCycle cs)"
  using
    cycle_detection [of "mkSpec [mkEntity ''1'' ''A'' [''B''], mkEntity ''2'' ''B'' [''3''],
                                 mkEntity ''3'' ''C'' [''A'']] []"
      "[mkEntity ''1'' ''A'' [''B''], mkEntity ''2'' ''B'' [''3''], mkEntity ''3'' ''C'' [''A'']]"
      "[]" "mkEntity ''1'' ''A'' [''B'']" "mkEntity ''2'' ''B'' [''3'']"
      "mkEntity ''3'' ''C'' [''A'']"]
    cycle_detection [of "mkSpec [mkEntity ''1'' ''A'' [''B''], mkEntity ''2'' ''B'' [''3''],
                                 mkEntity ''3'' ''C'' []] []"
      "[mkEntity ''1'' ''A'' [''B''], mkEntity ''2'' ''B'' [''3''], mkEntity ''3'' ''C'' []]"
      "[]" "mkEntity ''1'' ''A'' [''B'']" "mkEntity ''2'' ''B'' [''3'']"
      "mkEntity ''3'' ''C'' []"]
  by (simp add: mkSpec_def mkEntity_def hasEdge_def)

text \<open>
  The chain half of C5 as stated fails when two entities share an id: \<open>A\<close> and \<open>B\<close> both have
  id \<open>1\<close>, the graph is the chain \<open>A \<rightarrow> B \<rightarrow> C\<close>, and the search, which keys its stack on ids,
  reports a cycle at \<open>B\<close>.
\<close>

theorem chain_shared_id_counterexample:
  "hasEdge (mkEntity ''1'' ''A'' [''B'']) (mkEntity ''1'' ''B'' [''C'']) \<and>
   hasEdge (mkEntity ''1'' ''B'' [''C'']) (mkEntity ''3'' ''C'' []) \<and>
   \<not> hasEdge (mkEntity ''1'' ''A'' [''B'']) (mkEntity ''1'' ''A'' [''B'']) \<and>
   \<not> hasEdge (mkEntity ''1'' ''A'' [''B'']) (mkEntity ''3'' ''C'' []) \<and>
   \<not> hasEdge (mkEntity ''1'' ''B'' [''C'']) (mkEntity ''1'' ''A'' [''B'']) \<and>
   \<not> hasEdge (mkEntity ''1'' ''B'' [''C'']) (mkEntity ''1'' ''B'' [''C'']) \<and>
   \<not> hasEdge (mkEntity ''3'' ''C'' []) (mkEntity ''1'' ''A'' [''B'']) \<and>
   \<not> hasEdge (mkEntity ''3'' ''C'' []) (mkEntity ''1'' ''B'' [''C'']) \<and>
   \<not> hasEdge (mkEntity ''3'' ''C'' []) (mkEntity ''3'' ''C'' []) \<and>
   validateSpec (mkSpec [mkEntity ''1'' ''A'' [''B''], mkEntity ''1'' ''B'' [''C''],
                         mkEntity ''3'' ''C'' []] [])
     = Inr [\<lparr> ctype = CircularRelation,
              message = ''Circular relation detected involving B'',
              details = Some (JObj [(''entityId'', JStr ''1''), (''entityName'', JStr ''B'')]) \<rparr>]"
  by (simp add: validateSpec_def mkSpec_def mkEntity_def validateCircularRelations_def
      findTarget_def fieldConflicts_def circular_def hasEdge_def)

section \<open>Impact summary\<close>

lemma set_concat_pushed:
  "i \<in> set imps \<Longrightarrow> includes_str (description i) word \<Longrightarrow>
   set (orEmpty (sel i)) \<subseteq> set (concat (map (pushed word sel) imps))"
  by (auto simp: pushed_def)

text \<open>
  Claim C9. In the summary, every name in \<open>affectedEntities\<close> (\<open>affectedEndpoints\<close>) of an
  impact whose description contains \<open>added\<close> is in \<open>newEntities\<close> (\<open>newEndpoints\<close>), likewise
  \<open>removed\<close> and \<open>removedEntities\<close> (\<open>removedEndpoints\<close>), and the three counts are the
  cardinalities of the unions of the affected names over all impacts.
\<close>

theorem impact_summary_classification:
  "(\<forall>i \<in> set imps. includes_str (description i) ''added'' \<longrightarrow>
      set (orEmpty (affectedEntities i)) \<subseteq> set (newEntities (generateImpactSummary imps confs)) \<and>
      set (orEmpty (affectedEndpoints i)) \<subseteq> set (newEndpoints (generateImpactSummary imps confs))) \<and>
   (\<forall>i \<in> set imps. includes_str (description i) ''removed'' \<longrightarrow>
      set (orEmpty (affectedEntities i)) \<subseteq> set (removedEntities (generateImpactSummary imps confs)) \<and>
      set (orEmpty (affectedEndpoints i)) \<subseteq> set (removedEndpoints (generateImpactSummary imps confs))) \<and>
   modifiedEntities (generateImpactSummary imps confs) =
     card (\<Union>i \<in> set imps. set (orEmpty (affectedEntities i))) \<and>
   modifiedEndpoints (generateImpactSummary imps confs) =
     card (\<Union>i \<in> set imps. set (orEmpty (affectedEndpoints i))) \<and>
   modifiedFiles (generateImpactSummary imps confs) =
     card (\<Union>i \<in> set imps. set (orEmpty (affectedFiles i)))"
  using set_concat_pushed by (simp add: generateImpactSummary_def)

text \<open>The theorem at the impacts \<open>Entity Foo added\<close> and \<open>Entity Foo removed\<close>.\<close>

theorem impact_summary_classification_witness:
  "includes_str (description (entityImpact ''Foo'' ''added'' [''prisma/schema.prisma''])) ''added'' \<and>
   includes_str (description (entityImpact ''Foo'' ''removed'' [''prisma/schema.prisma''])) ''removed'' \<and>
   ''Foo'' \<in> set (newEntities (generateImpactSummary
      [entityImpact ''Foo'' ''added'' [''prisma/schema.prisma''],
       entityImpact ''Foo'' ''removed'' [''prisma/schema.prisma'']] [])) \<and>
   ''Foo'' \<in> set (removedEntities (generateImpactSummary
      [entityImpact ''Foo'' ''added'' [''prisma/schema.prisma''],
       entityImpact ''Foo'' ''removed'' [''prisma/schema.prisma'']] [])) \<and>
   modifiedEntities (generateImpactSummary
      [entityImpact ''Foo'' ''added'' [''prisma/schema.prisma''],
       entityImpact ''Foo'' ''removed'' [''prisma/schema.prisma'']] []) = 1 \<and>
   totalChanges (generateImpactSummary
      [entityImpact ''Foo'' ''added'' [''prisma/schema.prisma''],
       entityImpact ''Foo'' ''removed'' [''prisma/schema.prisma'']] []) = 2"
  using impact_summary_classification
    [of "[entityImpact ''Foo'' ''added'' [''prisma/schema.prisma''],
          entityImpact ''Foo'' ''removed'' [''prisma/schema.prisma'']]" "[]"]
  by (simp add: entityImpact_def orEmpty_def generateImpactSummary_def pushed_def)

section \<open>The validator returns on typed specs\<close>

lemma validateSpec_returns:
  "entities s = Some es \<Longrightarrow> endpoints s = Some eps \<Longrightarrow>
   \<exists>cyc. validateCircularRelations es = Some cyc \<and>
         validateSpec s = Inr (entityConflicts {} es @ endpointConflicts {} eps @ cyc)"
  using validateCircularRelations_returns [of es] by (auto simp: validateSpec_def)

lemma validateCircular_types:
  "validateCircularRelations es = Some cyc \<Longrightarrow> c \<in> set cyc \<Longrightarrow> ctype c = CircularRelation"
  using visitAll_found_grows [of "Suc (length es)" es "\<lparr>visited = {}, stack = {}, found = []\<rparr>" es]
  by (auto simp: validateCircularRelations_def list_all_iff)

lemma validateSpec_types:
  "validateSpec s = Inr cs \<Longrightarrow> c \<in> set cs \<Longrightarrow> ctype c \<noteq> Validation"
  using entityConflicts_types endpointConflicts_types validateCircular_types
  by (fastforce simp: validateSpec_def split: option.splits)

text \<open>
  Claim C4 as stated fails for a missing list: \<open>for (const entity of spec.entities)\<close> and
  \<open>for (const endpoint of spec.endpoints)\<close> throw on \<open>undefined\<close>.
\<close>

theorem validate_missing_list_counterexample:
  "validateSpec \<lparr> requirements = Some [], entities = None, endpoints = Some [],
                  folder_structure = FolderStructure [], passengers = [] \<rparr> = Inl TypeError \<and>
   validateSpec \<lparr> requirements = Some [], entities = Some [], endpoints = None,
                  folder_structure = FolderStructure [], passengers = [] \<rparr> = Inl TypeError"
  by (simp add: validateSpec_def)

text \<open>
  Claim C4, as the code has it. On a spec that conforms to the \<open>Spec\<close> type, so that both
  lists are present and every entity has its fields and relations, the validator returns,
  and an empty list contributes nothing: with no entities the conflicts are those of the
  endpoints, with no endpoints they are those of the entities and their relations, with
  neither there are none. (The recursion of the cycle search is as deep as the longest
  relation chain; the model has no call-stack limit.)
\<close>

theorem validate_tolerates_empty_lists:
  "entities s = Some es \<Longrightarrow> endpoints s = Some eps \<Longrightarrow>
   \<exists>cs. validateSpec s = Inr cs \<and>
        (es = [] \<longrightarrow> cs = endpointConflicts {} eps) \<and>
        (eps = [] \<longrightarrow> (\<exists>cyc. validateCircularRelations es = Some cyc \<and>
                               cs = entityConflicts {} es @ cyc)) \<and>
        (es = [] \<and> eps = [] \<longrightarrow> cs = [])"
proof -
  assume s: "entities s = Some es" "endpoints s = Some eps"
  from validateSpec_returns [OF s] obtain cyc where
    c: "validateCircularRelations es = Some cyc"
    and v: "validateSpec s = Inr (entityConflicts {} es @ endpointConflicts {} eps @ cyc)"
    by blast
  have "es = [] \<Longrightarrow> cyc = []"
    using c by (simp add: validateCircularRelations_def)
  with c v show ?thesis by auto
qed

text \<open>The theorem at the spec with two empty lists.\<close>

theorem validate_tolerates_empty_lists_witness:
  "entities (mkSpec [] []) = Some [] \<and> endpoints (mkSpec [] []) = Some [] \<and>
   validateSpec (mkSpec [] []) = Inr []"
  using validate_tolerates_empty_lists [of "mkSpec [] []" "[]" "[]"]
  by (simp add: mkSpec_def)

section \<open>The applier returns on typed input\<close>

lemma length_validationConflicts_append:
  "length (validationConflicts (xs @ ys)) =
   length (validationConflicts xs) + length (validationConflicts ys)"
  by (simp add: validationConflicts_def)

lemma applyOperation_returns:
  "wellShaped w \<Longrightarrow>
   \<exists>r. applyOperation w operation = Inr r \<and> wellShaped (res_spec r) \<and>
       length (validationConflicts (conflicts r)) = (if isUnsupported operation then 1 else 0)"
  by (cases operation)
     (auto simp: wellShaped_def noEffect_def applied_def validationConflicts_def Let_def
           split: option.splits)

lemma applyOperations_returns:
  "wellShaped (res_spec st) \<Longrightarrow>
   \<exists>r. applyOperations st ops = Inr r \<and> wellShaped (res_spec r) \<and>
       length (validationConflicts (conflicts r)) =
         length (validationConflicts (conflicts st)) + length (filter isUnsupported ops)"
proof (induction ops arbitrary: st)
  case Nil
  then show ?case by simp
next
  case (Cons operation rest)
  from applyOperation_returns [OF Cons.prems, of operation] obtain r1 where
    r1: "applyOperation (res_spec st) operation = Inr r1" "wellShaped (res_spec r1)"
      "length (validationConflicts (conflicts r1)) = (if isUnsupported operation then 1 else 0)"
    by blast
  let ?st1 = "\<lparr> res_spec = res_spec r1, conflicts = conflicts st @ conflicts r1,
                impacts = impacts st @ impacts r1 \<rparr>"
  from r1 have "wellShaped (res_spec ?st1)" by simp
  from Cons.IH [OF this] obtain r where
    "applyOperations ?st1 rest = Inr r" "wellShaped (res_spec r)"
    "length (validationConflicts (conflicts r)) =
       length (validationConflicts (conflicts ?st1)) + length (filter isUnsupported rest)"
    by blast
  with r1 show ?case by (simp add: length_validationConflicts_append)
qed

text \<open>
  Claim C3 as stated fails: nothing catches the \<open>TypeError\<close> of a change request without
  \<open>operations\<close>, or of \<open>addRequirement\<close> on a spec without \<open>requirements\<close>.
\<close>

theorem apply_malformed_counterexample:
  "applyChangeRequestToSpec (mkSpec [] []) \<lparr> summary = ''no operations'', operations = None \<rparr>
     = Inl TypeError \<and>
   applyChangeRequestToSpec
     \<lparr> requirements = None, entities = Some [], endpoints = Some [],
       folder_structure = FolderStructure [], passengers = [] \<rparr>
     \<lparr> summary = ''add'',
       operations = Some [AddRequirement \<lparr> req_id = ''r1'', req_description = ''d'' \<rparr>] \<rparr>
     = Inl TypeError"
  by (simp add: applyChangeRequestToSpec_def jsonClone_def)

text \<open>
  Claim C3, as the code has it. On the input the type system allows, a spec that conforms to
  \<open>Spec\<close> and a change request that conforms to \<open>ChangeRequest\<close> (so the three lists and the
  operations array are present), and also when operations of the request are objects with
  a \<open>type\<close> outside the closed set, the applier returns a result, and its \<open>validation\<close>
  conflicts are exactly one per operation of unsupported type. No other malformed input is
  turned into a conflict.
\<close>

theorem apply_total_on_well_shaped:
  "wellShaped currentSpec \<Longrightarrow> operations changeRequest = Some ops \<Longrightarrow>
   \<exists>r. applyChangeRequestToSpec currentSpec changeRequest = Inr r \<and>
       length (validationConflicts (conflicts r)) = length (filter isUnsupported ops)"
proof -
  assume w: "wellShaped currentSpec" and o: "operations changeRequest = Some ops"
  let ?init = "\<lparr> res_spec = jsonClone currentSpec, conflicts = [], impacts = [] \<rparr>"
  from w have "wellShaped (res_spec ?init)" by (simp add: jsonClone_def)
  from applyOperations_returns [OF this, of ops] obtain st where
    st: "applyOperations ?init ops = Inr st" "wellShaped (res_spec st)"
      "length (validationConflicts (conflicts st)) = length (filter isUnsupported ops)"
    by (auto simp: validationConflicts_def)
  from st(2) obtain es eps where
    "entities (res_spec st) = Some es" "endpoints (res_spec st) = Some eps"
    by (auto simp: wellShaped_def)
  from validateSpec_returns [OF this] obtain cs where
    cs: "validateSpec (res_spec st) = Inr cs" by blast
  have "validationConflicts cs = []"
    using validateSpec_types [OF cs] by (auto simp: validationConflicts_def filter_empty_conv)
  with o st cs show ?thesis
    by (simp add: applyChangeRequestToSpec_def length_validationConflicts_append)
qed

text \<open>The theorem at a request with one operation of unknown type.\<close>

theorem apply_total_on_well_shaped_witness:
  "wellShaped (mkSpec [] []) \<and>
   (\<exists>r. applyChangeRequestToSpec (mkSpec [] [])
          \<lparr> summary = ''s'', operations = Some [Unsupported (Some ''renameEntity'')] \<rparr> = Inr r \<and>
        length (validationConflicts (conflicts r)) = 1)"
  using apply_total_on_well_shaped [of "mkSpec [] []"
      "\<lparr> summary = ''s'', operations = Some [Unsupported (Some ''renameEntity'')] \<rparr>"
      "[Unsupported (Some ''renameEntity'')]"]
  by (simp add: mkSpec_def wellShaped_def)

section \<open>Lists\<close>

lemma update_first_split:
  "find P xs = Some x \<Longrightarrow>
   \<exists>pre post. xs = pre @ x # post \<and> (\<forall>y\<in>set pre. \<not> P y) \<and>
              update_first P f xs = pre @ f x # post"
proof (induction xs)
  case Nil
  then show ?case by simp
next
  case (Cons a xs)
  show ?case
  proof (cases "P a")
    case True
    with Cons.prems have "a = x" by simp
    with True show ?thesis by (intro exI [of _ "[]"] exI [of _ xs]) auto
  next
    case False
    with Cons obtain pre post where
      "xs = pre @ x # post" "\<forall>y\<in>set pre. \<not> P y" "update_first P f xs = pre @ f x # post"
      by auto
    with False show ?thesis by (intro exI [of _ "a # pre"] exI [of _ post]) auto
  qed
qed

lemma find_append_none:
  "\<not> list_ex P xs \<Longrightarrow> find P (xs @ ys) = find P ys"
  by (induction xs) auto

lemma update_first_append_none:
  "\<not> list_ex P xs \<Longrightarrow> update_first P f (xs @ ys) = xs @ update_first P f ys"
  by (induction xs) auto

lemma filter_same_length:
  "length xs = length (filter P xs) \<Longrightarrow> filter P xs = xs"
  by (metis filter_True length_filter_less nat_neq_iff filter_id_conv)

section \<open>Single operations\<close>

lemma applyOperation_conflict_or_impact:
  "applyOperation w operation = Inr r \<Longrightarrow>
   (length (conflicts r) = 1 \<and> impacts r = [] \<and> res_spec r = w) \<or>
   (conflicts r = [] \<and> length (impacts r) = 1)"
proof (cases operation)
  case (RemoveRequirement rid)
  assume a: "applyOperation w operation = Inr r"
  show ?thesis
  proof (cases "requirements w")
    case None
    with a RemoveRequirement show ?thesis by simp
  next
    case (Some rs)
    show ?thesis
    proof (cases "length rs = length (filter (\<lambda>r. req_id r \<noteq> rid) rs)")
      case True
      then have "filter (\<lambda>r. req_id r \<noteq> rid) rs = rs" by (rule filter_same_length)
      with a RemoveRequirement Some show ?thesis
        by (auto simp: noEffect_def applied_def Let_def)
    next
      case False
      with a RemoveRequirement Some show ?thesis
        by (auto simp: noEffect_def applied_def Let_def)
    qed
  qed
qed (auto simp: noEffect_def applied_def Let_def split: option.splits if_splits)

section \<open>Adding and updating entities\<close>

text \<open>
  Claim C6. On a spec that validates without findings and holds an entity with the name of
  the entity to add (\<open>User\<close> in the claim), a request whose only operation is that
  \<open>addEntity\<close> returns exactly one conflict, of type \<open>naming\<close>, and leaves the entities list (and
  the whole spec) as it was.
\<close>

theorem duplicate_name_rejection:
  "validateSpec s = Inr [] \<Longrightarrow> entities s = Some es \<Longrightarrow>
   list_ex (\<lambda>x. ent_name x = ent_name e) es \<Longrightarrow>
   operations changeRequest = Some [AddEntity e] \<Longrightarrow>
   \<exists>r c. applyChangeRequestToSpec s changeRequest = Inr r \<and>
         conflicts r = [c] \<and> ctype c = Naming \<and> impacts r = [] \<and>
         entities (res_spec r) = Some es \<and> res_spec r = s"
  by (simp add: applyChangeRequestToSpec_def jsonClone_def noEffect_def)

text \<open>The theorem at a spec holding \<open>User\<close> and a second \<open>User\<close> to add.\<close>

theorem duplicate_name_rejection_witness:
  "validateSpec (mkSpec [mkEntity ''u1'' ''User'' []] []) = Inr [] \<and>
   (\<exists>r c. applyChangeRequestToSpec (mkSpec [mkEntity ''u1'' ''User'' []] [])
            (mkRequest [AddEntity (mkEntity ''u2'' ''User'' [])]) = Inr r \<and>
          conflicts r = [c] \<and> ctype c = Naming \<and> impacts r = [] \<and>
          entities (res_spec r) = Some [mkEntity ''u1'' ''User'' []] \<and>
          res_spec r = mkSpec [mkEntity ''u1'' ''User'' []] [])"
proof -
  have v: "validateSpec (mkSpec [mkEntity ''u1'' ''User'' []] []) = Inr []"
    by (simp add: validateSpec_def mkSpec_def mkEntity_def validateCircularRelations_def
        fieldConflicts_def)
  from duplicate_name_rejection [OF v, of "[mkEntity ''u1'' ''User'' []]"
      "mkEntity ''u2'' ''User'' []" "mkRequest [AddEntity (mkEntity ''u2'' ''User'' [])]"]
  have "\<exists>r c. applyChangeRequestToSpec (mkSpec [mkEntity ''u1'' ''User'' []] [])
            (mkRequest [AddEntity (mkEntity ''u2'' ''User'' [])]) = Inr r \<and>
          conflicts r = [c] \<and> ctype c = Naming \<and> impacts r = [] \<and>
          entities (res_spec r) = Some [mkEntity ''u1'' ''User'' []] \<and>
          res_spec r = mkSpec [mkEntity ''u1'' ''User'' []] []"
    by (simp add: mkSpec_def mkEntity_def mkRequest_def)
  with v show ?thesis by simp
qed

text \<open>
  Claim C7. Operations run in array order on the working spec. On a spec with no entity of
  id \<open>X\<close> and none of name \<open>N\<close>, the request \<open>[addEntity {id: X, name: N}, updateEntity X patch]\<close>
  with a patch whose name collides with no other entity applies both operations. The
  proposed spec is the current one with one more entity at the end of the list, and each of
  its four properties is the value of the patch where the patch has the property and the
  value of the added entity otherwise. Each operation records its impact, and the only
  conflicts returned are the findings of the validator on the result (none from either
  operation).
\<close>

theorem add_then_update_same_request:
  "entities s = Some es \<Longrightarrow> endpoints s = Some eps \<Longrightarrow>
   \<not> list_ex (\<lambda>x. ent_id x = ent_id e) es \<Longrightarrow>
   \<not> list_ex (\<lambda>x. ent_name x = ent_name e) es \<Longrightarrow>
   \<not> (truthy (pe_name p) \<and>
       list_ex (\<lambda>other. ent_id other \<noteq> ent_id e \<and> Some (ent_name other) = pe_name p) es) \<Longrightarrow>
   operations changeRequest = Some [AddEntity e, UpdateEntity (ent_id e) p] \<Longrightarrow>
   \<exists>r. applyChangeRequestToSpec s changeRequest = Inr r \<and>
       res_spec r =
         s\<lparr>entities := Some (es @
            [\<lparr> ent_id = (case pe_id p of None \<Rightarrow> ent_id e | Some v \<Rightarrow> v),
               ent_name = (case pe_name p of None \<Rightarrow> ent_name e | Some v \<Rightarrow> v),
               ent_fields = (case pe_fields p of None \<Rightarrow> ent_fields e | Some v \<Rightarrow> v),
               ent_relations =
                 (case pe_relations p of None \<Rightarrow> ent_relations e | Some v \<Rightarrow> v) \<rparr>])\<rparr> \<and>
       validateSpec (res_spec r) = Inr (conflicts r) \<and>
       map description (impacts r) =
         [''Entity '' @ ent_name e @ '' added'',
          ''Entity '' @ (case pe_name p of None \<Rightarrow> ent_name e | Some v \<Rightarrow> v) @ '' updated'']"
proof -
  assume s: "entities s = Some es" "endpoints s = Some eps"
    and nid: "\<not> list_ex (\<lambda>x. ent_id x = ent_id e) es"
    and nname: "\<not> list_ex (\<lambda>x. ent_name x = ent_name e) es"
    and ncol: "\<not> (truthy (pe_name p) \<and>
       list_ex (\<lambda>other. ent_id other \<noteq> ent_id e \<and> Some (ent_name other) = pe_name p) es)"
    and ops: "operations changeRequest = Some [AddEntity e, UpdateEntity (ent_id e) p]"
  define merged where "merged =
     \<lparr> ent_id = (case pe_id p of None \<Rightarrow> ent_id e | Some v \<Rightarrow> v),
       ent_name = (case pe_name p of None \<Rightarrow> ent_name e | Some v \<Rightarrow> v),
       ent_fields = (case pe_fields p of None \<Rightarrow> ent_fields e | Some v \<Rightarrow> v),
       ent_relations = (case pe_relations p of None \<Rightarrow> ent_relations e | Some v \<Rightarrow> v) \<rparr>"
  have m: "assignEntity e p = merged"
    by (simp add: assignEntity_def merged_def)
  have mn: "ent_name merged = (case pe_name p of None \<Rightarrow> ent_name e | Some v \<Rightarrow> v)"
    by (simp add: merged_def)
  let ?w1 = "s\<lparr>entities := Some (es @ [e])\<rparr>"
  let ?w2 = "s\<lparr>entities := Some (es @ [merged])\<rparr>"
  have a1: "applyOperation s (AddEntity e) =
      Inr (applied ?w1 (entityImpact (ent_name e) ''added''
             [''prisma/schema.prisma'', ''src/entities/'' @ ent_name e @ ''.ts'']))"
    using s nname by simp
  have f: "find (\<lambda>x. ent_id x = ent_id e) (es @ [e]) = Some e"
    using nid by (simp add: find_append_none)
  have u: "update_first (\<lambda>x. ent_id x = ent_id e) (\<lambda>x. assignEntity x p) (es @ [e]) =
           es @ [merged]"
    using nid by (simp add: update_first_append_none m)
  have a2: "applyOperation ?w1 (UpdateEntity (ent_id e) p) =
      Inr (applied ?w2 (entityImpact (ent_name merged) ''updated''
             [''prisma/schema.prisma'', ''src/entities/'' @ ent_name merged @ ''.ts'']))"
    using s f u ncol by (auto simp: Let_def m)
  from s have "entities ?w2 = Some (es @ [merged])" "endpoints ?w2 = Some eps"
    by simp_all
  from validateSpec_returns [OF this] obtain cs where cs: "validateSpec ?w2 = Inr cs"
    by blast
  have "applyChangeRequestToSpec s changeRequest =
        Inr \<lparr> res_spec = ?w2, conflicts = cs,
              impacts = [entityImpact (ent_name e) ''added''
                           [''prisma/schema.prisma'', ''src/entities/'' @ ent_name e @ ''.ts''],
                         entityImpact (ent_name merged) ''updated''
                           [''prisma/schema.prisma'',
                            ''src/entities/'' @ ent_name merged @ ''.ts'']] \<rparr>"
    using ops a1 a2 cs
    by (simp add: applyChangeRequestToSpec_def jsonClone_def applied_def)
  with cs show ?thesis
    unfolding merged_def [symmetric]
    by (simp add: entityImpact_def mn)
qed

text \<open>
  The theorem at \<open>addEntity Order\<close> followed by an update that replaces its name, fields and
  relations and leaves its id.
\<close>

theorem add_then_update_same_request_witness:
  "\<exists>r. applyChangeRequestToSpec (mkSpec [mkEntity ''u1'' ''User'' []] [])
          (mkRequest [AddEntity (mkEntity ''o1'' ''Order'' []),
                      UpdateEntity ''o1''
                        \<lparr> pe_id = None, pe_name = Some ''Purchase'',
                          pe_fields = Some [\<lparr> fld_name = ''total'', fld_type = ''Int'' \<rparr>],
                          pe_relations = Some [\<lparr> rel_target = ''User'',
                                                  rel_type = ManyToOne \<rparr>] \<rparr>]) = Inr r \<and>
       res_spec r =
         mkSpec [mkEntity ''u1'' ''User'' [],
                 \<lparr> ent_id = ''o1'', ent_name = ''Purchase'',
                   ent_fields = [\<lparr> fld_name = ''total'', fld_type = ''Int'' \<rparr>],
                   ent_relations = [\<lparr> rel_target = ''User'', rel_type = ManyToOne \<rparr>] \<rparr>] [] \<and>
       validateSpec (res_spec r) = Inr (conflicts r) \<and>
       map description (impacts r) = [''Entity Order added'', ''Entity Purchase updated'']"
  using add_then_update_same_request [of "mkSpec [mkEntity ''u1'' ''User'' []] []"
      "[mkEntity ''u1'' ''User'' []]" "[]" "mkEntity ''o1'' ''Order'' []"
      "\<lparr> pe_id = None, pe_name = Some ''Purchase'',
         pe_fields = Some [\<lparr> fld_name = ''total'', fld_type = ''Int'' \<rparr>],
         pe_relations = Some [\<lparr> rel_target = ''User'', rel_type = ManyToOne \<rparr>] \<rparr>"
      "mkRequest [AddEntity (mkEntity ''o1'' ''Order'' []),
                      UpdateEntity ''o1''
                        \<lparr> pe_id = None, pe_name = Some ''Purchase'',
                          pe_fields = Some [\<lparr> fld_name = ''total'', fld_type = ''Int'' \<rparr>],
                          pe_relations = Some [\<lparr> rel_target = ''User'',
                                                  rel_type = ManyToOne \<rparr>] \<rparr>]"]
  by (simp add: mkSpec_def mkEntity_def mkRequest_def truthy_def)

section \<open>Conflicting operations are skipped\<close>

lemma applyOperations_effective:
  "applyOperations st ops = Inr r \<Longrightarrow>
   \<exists>cs is. conflicts r = conflicts st @ cs \<and> impacts r = impacts st @ is \<and>
      length cs + length (effective (res_spec st) ops) = length ops \<and>
      (\<forall>st' :: apply_result. res_spec st' = res_spec st \<longrightarrow>
         applyOperations st' (effective (res_spec st) ops) =
           Inr \<lparr> res_spec = res_spec r, conflicts = conflicts st', impacts = impacts st' @ is \<rparr>)"
proof (induction ops arbitrary: st)
  case Nil
  then show ?case by auto
next
  case (Cons operation rest)
  from Cons.prems obtain r1 where
    r1: "applyOperation (res_spec st) operation = Inr r1"
    by (auto split: sum.splits)
  let ?st1 = "\<lparr> res_spec = res_spec r1, conflicts = conflicts st @ conflicts r1,
                impacts = impacts st @ impacts r1 \<rparr>"
  from Cons.prems r1 have "applyOperations ?st1 rest = Inr r" by simp
  from Cons.IH [OF this] obtain cs1 is1 where
    c: "conflicts r = conflicts ?st1 @ cs1" and i: "impacts r = impacts ?st1 @ is1"
    and l: "length cs1 + length (effective (res_spec ?st1) rest) = length rest"
    and e: "\<And>st' :: apply_result. res_spec st' = res_spec ?st1 \<Longrightarrow>
         applyOperations st' (effective (res_spec ?st1) rest) =
           Inr \<lparr> res_spec = res_spec r, conflicts = conflicts st', impacts = impacts st' @ is1 \<rparr>"
    by blast
  from applyOperation_conflict_or_impact [OF r1] show ?case
  proof
    assume skipped: "length (conflicts r1) = 1 \<and> impacts r1 = [] \<and> res_spec r1 = res_spec st"
    then have eff: "effective (res_spec st) (operation # rest) = effective (res_spec st) rest"
      using r1 by auto
    show ?thesis
    proof (intro exI [of _ "conflicts r1 @ cs1"] exI [of _ is1] conjI allI impI)
      show "conflicts r = conflicts st @ conflicts r1 @ cs1" using c by simp
      show "impacts r = impacts st @ is1" using i skipped by simp
      show "length (conflicts r1 @ cs1) + length (effective (res_spec st) (operation # rest)) =
            length (operation # rest)"
        using l skipped eff by simp
    next
      fix st' :: apply_result
      assume "res_spec st' = res_spec st"
      with e [of st'] skipped eff
      show "applyOperations st' (effective (res_spec st) (operation # rest)) =
            Inr \<lparr> res_spec = res_spec r, conflicts = conflicts st', impacts = impacts st' @ is1 \<rparr>"
        by simp
    qed
  next
    assume applied1: "conflicts r1 = [] \<and> length (impacts r1) = 1"
    then have eff: "effective (res_spec st) (operation # rest) =
                    operation # effective (res_spec r1) rest"
      using r1 by simp
    show ?thesis
    proof (intro exI [of _ cs1] exI [of _ "impacts r1 @ is1"] conjI allI impI)
      show "conflicts r = conflicts st @ cs1" using c applied1 by simp
      show "impacts r = impacts st @ impacts r1 @ is1" using i by simp
      show "length cs1 + length (effective (res_spec st) (operation # rest)) =
            length (operation # rest)"
        using l eff by simp
    next
      fix st' :: apply_result
      assume s': "res_spec st' = res_spec st"
      let ?st2 = "\<lparr> res_spec = res_spec r1, conflicts = conflicts st' @ conflicts r1,
                    impacts = impacts st' @ impacts r1 \<rparr>"
      from e [of ?st2] applied1
      have "applyOperations ?st2 (effective (res_spec r1) rest) =
            Inr \<lparr> res_spec = res_spec r, conflicts = conflicts st',
                  impacts = impacts st' @ impacts r1 @ is1 \<rparr>"
        by simp
      with s' r1 eff
      show "applyOperations st' (effective (res_spec st) (operation # rest)) =
            Inr \<lparr> res_spec = res_spec r, conflicts = conflicts st',
                  impacts = impacts st' @ impacts r1 @ is1 \<rparr>"
        by simp
    qed
  qed
qed

text \<open>
  Claim C1. Every iteration either pushes one conflict and leaves the working spec as it
  was, or pushes one impact (\<open>applyOperation_conflict_or_impact\<close>), and the loop goes on to
  the next operation in both cases. So whenever the applier returns, the proposed spec and
  the impacts are those of the request reduced to its operations that reported no conflict,
  that reduced request reports only the findings of the validator, and every operation left
  out accounts for exactly one conflict of the original result.
\<close>

theorem conflicting_operations_leave_no_trace:
  "applyChangeRequestToSpec currentSpec changeRequest = Inr r \<Longrightarrow>
   operations changeRequest = Some ops \<Longrightarrow>
   \<exists>r'. applyChangeRequestToSpec currentSpec
          (changeRequest\<lparr>operations := Some (effective currentSpec ops)\<rparr>) = Inr r' \<and>
        res_spec r' = res_spec r \<and> impacts r' = impacts r \<and>
        validateSpec (res_spec r) = Inr (conflicts r') \<and>
        length (conflicts r) + length (effective currentSpec ops) =
          length (conflicts r') + length ops"
proof -
  assume a: "applyChangeRequestToSpec currentSpec changeRequest = Inr r"
    and o: "operations changeRequest = Some ops"
  let ?init = "\<lparr> res_spec = jsonClone currentSpec, conflicts = [], impacts = [] \<rparr>"
  from a o obtain st findings where
    st: "applyOperations ?init ops = Inr st"
    and v: "validateSpec (res_spec st) = Inr findings"
    and r: "r = st\<lparr>conflicts := conflicts st @ findings\<rparr>"
    by (auto simp: applyChangeRequestToSpec_def split: sum.splits)
  from applyOperations_effective [OF st] obtain cs "is" where
    c: "conflicts st = cs" and i: "impacts st = is"
    and l: "length cs + length (effective currentSpec ops) = length ops"
    and e: "applyOperations ?init (effective currentSpec ops) =
           Inr \<lparr> res_spec = res_spec st, conflicts = [], impacts = is \<rparr>"
    by (auto simp: jsonClone_def)
  show ?thesis
    using e v r c i l
    by (simp add: applyChangeRequestToSpec_def)
qed

text \<open>The theorem at a request whose first operation conflicts and whose second applies.\<close>

theorem conflicting_operations_leave_no_trace_witness:
  "applyChangeRequestToSpec (mkSpec [mkEntity ''u1'' ''User'' []] [])
     (mkRequest [AddEntity (mkEntity ''u2'' ''User'' []), AddEntity (mkEntity ''o1'' ''Order'' [])])
     = Inr \<lparr> res_spec = mkSpec [mkEntity ''u1'' ''User'' [], mkEntity ''o1'' ''Order'' []] [],
             conflicts = [\<lparr> ctype = Naming, message = ''Entity with name User already exists'',
                           details = Some (JObj [(''entityName'', JStr ''User'')]) \<rparr>],
             impacts = [entityImpact ''Order'' ''added''
                          [''prisma/schema.prisma'', ''src/entities/Order.ts'']] \<rparr> \<and>
   effective (mkSpec [mkEntity ''u1'' ''User'' []] [])
     [AddEntity (mkEntity ''u2'' ''User'' []), AddEntity (mkEntity ''o1'' ''Order'' [])]
     = [AddEntity (mkEntity ''o1'' ''Order'' [])] \<and>
   (\<exists>r'. applyChangeRequestToSpec (mkSpec [mkEntity ''u1'' ''User'' []] [])
           (mkRequest [AddEntity (mkEntity ''o1'' ''Order'' [])]) = Inr r' \<and>
         res_spec r' = mkSpec [mkEntity ''u1'' ''User'' [], mkEntity ''o1'' ''Order'' []] [] \<and>
         conflicts r' = [])"
proof -
  have run: "applyChangeRequestToSpec (mkSpec [mkEntity ''u1'' ''User'' []] [])
     (mkRequest [AddEntity (mkEntity ''u2'' ''User'' []), AddEntity (mkEntity ''o1'' ''Order'' [])])
     = Inr \<lparr> res_spec = mkSpec [mkEntity ''u1'' ''User'' [], mkEntity ''o1'' ''Order'' []] [],
             conflicts = [\<lparr> ctype = Naming, message = ''Entity with name User already exists'',
                           details = Some (JObj [(''entityName'', JStr ''User'')]) \<rparr>],
             impacts = [entityImpact ''Order'' ''added''
                          [''prisma/schema.prisma'', ''src/entities/Order.ts'']] \<rparr>"
    by (simp add: applyChangeRequestToSpec_def jsonClone_def mkSpec_def mkEntity_def
        mkRequest_def noEffect_def applied_def entityImpact_def validateSpec_def
        validateCircularRelations_def fieldConflicts_def)
  have eff: "effective (mkSpec [mkEntity ''u1'' ''User'' []] [])
     [AddEntity (mkEntity ''u2'' ''User'' []), AddEntity (mkEntity ''o1'' ''Order'' [])]
     = [AddEntity (mkEntity ''o1'' ''Order'' [])]"
    by (simp add: mkSpec_def mkEntity_def noEffect_def applied_def)
  have val: "validateSpec (mkSpec [mkEntity ''u1'' ''User'' [], mkEntity ''o1'' ''Order'' []] [])
     = Inr []"
    by (simp add: mkSpec_def mkEntity_def validateSpec_def validateCircularRelations_def
        fieldConflicts_def)
  from conflicting_operations_leave_no_trace [OF run, of
      "[AddEntity (mkEntity ''u2'' ''User'' []), AddEntity (mkEntity ''o1'' ''Order'' [])]"]
  show ?thesis
    using run eff val by (auto simp: mkRequest_def)
qed

section \<open>Updating an endpoint\<close>

text \<open>
  Claim C8 as stated fails for the patch \<open>{ path: '' }\<close>: it changes the path, the guard
  \<open>patch.path || patch.method\<close> is false, the collision check is skipped, and endpoint \<open>1\<close> takes
  the pair \<open>(GET, '')\<close> that endpoint \<open>2\<close> already has, with no conflict from the operation.
  The whole call returns the changed endpoint in the proposed spec; its only conflict is the
  validator's finding of the duplicate it has just let in.
\<close>

theorem update_endpoint_empty_path_counterexample:
  "applyOperation (mkSpec [] [mkEndpoint ''1'' GET ''/a'', mkEndpoint ''2'' GET ''''])
     (UpdateEndpoint ''1''
        \<lparr> pp_id = None, pp_method = None, pp_path = Some '''', pp_schema = None \<rparr>)
   = Inr \<lparr> res_spec = mkSpec [] [mkEndpoint ''1'' GET '''', mkEndpoint ''2'' GET ''''],
           conflicts = [],
           impacts = [endpointImpact GET '''' ''updated''
                        [''openapi.json'', ''src/routes/root.ts'']] \<rparr> \<and>
   applyChangeRequestToSpec (mkSpec [] [mkEndpoint ''1'' GET ''/a'', mkEndpoint ''2'' GET ''''])
     (mkRequest [UpdateEndpoint ''1''
        \<lparr> pp_id = None, pp_method = None, pp_path = Some '''', pp_schema = None \<rparr>])
   = Inr \<lparr> res_spec = mkSpec [] [mkEndpoint ''1'' GET '''', mkEndpoint ''2'' GET ''''],
           conflicts = [duplicateEndpoint (mkEndpoint ''2'' GET '''')],
           impacts = [endpointImpact GET '''' ''updated''
                        [''openapi.json'', ''src/routes/root.ts'']] \<rparr>"
  by (simp add: mkSpec_def mkEndpoint_def mkRequest_def truthy_def applied_def
      assignEndpoint_def sanitizePath_def endpointImpact_def endpointLabel_def
      applyChangeRequestToSpec_def jsonClone_def validateSpec_def validateCircularRelations_def
      signature_def method_str_def duplicateEndpoint_def)

text \<open>
  Claim C8, as the code has it. For \<open>updateEndpoint\<close> on an id that \<open>find\<close> resolves to \<open>e\<close>, with
  a patch that has a non-empty path or a method: the check is keyed on the resulting
  (method, path) pair of \<open>e\<close>, against the endpoints whose id differs from the target id. If
  one of them has that pair, one \<open>naming\<close> conflict is reported and the working spec is
  unchanged. Otherwise the first endpoint with the target id, and no other, is replaced in
  its place by the merge: each of its four properties is the value of the patch where the
  patch has the property and the value of \<open>e\<close> otherwise.
\<close>

theorem update_endpoint_collision:
  "endpoints w = Some eps \<Longrightarrow> find (\<lambda>x. ep_id x = eid) eps = Some e \<Longrightarrow>
   truthy (pp_path p) \<or> pp_method p \<noteq> None \<Longrightarrow>
   (if list_ex (\<lambda>other. ep_id other \<noteq> eid \<and>
                  ep_method other = (case pp_method p of None \<Rightarrow> ep_method e | Some v \<Rightarrow> v) \<and>
                  ep_path other = (case pp_path p of None \<Rightarrow> ep_path e | Some v \<Rightarrow> v)) eps
    then \<exists>c. applyOperation w (UpdateEndpoint eid p) =
               Inr \<lparr> res_spec = w, conflicts = [c], impacts = [] \<rparr> \<and> ctype c = Naming
    else \<exists>pre post i. eps = pre @ e # post \<and> \<not> list_ex (\<lambda>x. ep_id x = eid) pre \<and>
           applyOperation w (UpdateEndpoint eid p) =
             Inr \<lparr> res_spec = w\<lparr>endpoints := Some (pre @
                      \<lparr> ep_id = (case pp_id p of None \<Rightarrow> ep_id e | Some v \<Rightarrow> v),
                        ep_method = (case pp_method p of None \<Rightarrow> ep_method e | Some v \<Rightarrow> v),
                        ep_path = (case pp_path p of None \<Rightarrow> ep_path e | Some v \<Rightarrow> v),
                        ep_schema = (case pp_schema p of None \<Rightarrow> ep_schema e | Some v \<Rightarrow> v) \<rparr>
                      # post)\<rparr>,
                   conflicts = [], impacts = [i] \<rparr>)"
proof -
  assume w: "endpoints w = Some eps" and f: "find (\<lambda>x. ep_id x = eid) eps = Some e"
    and t: "truthy (pp_path p) \<or> pp_method p \<noteq> None"
  define merged where "merged =
     \<lparr> ep_id = (case pp_id p of None \<Rightarrow> ep_id e | Some v \<Rightarrow> v),
       ep_method = (case pp_method p of None \<Rightarrow> ep_method e | Some v \<Rightarrow> v),
       ep_path = (case pp_path p of None \<Rightarrow> ep_path e | Some v \<Rightarrow> v),
       ep_schema = (case pp_schema p of None \<Rightarrow> ep_schema e | Some v \<Rightarrow> v) \<rparr>"
  have m: "assignEndpoint e p = merged"
    by (simp add: assignEndpoint_def merged_def)
  from update_first_split [OF f, of "\<lambda>x. assignEndpoint x p"] obtain pre post where
    sp: "eps = pre @ e # post" and npre: "\<forall>y\<in>set pre. ep_id y \<noteq> eid"
    and upd: "update_first (\<lambda>x. ep_id x = eid) (\<lambda>x. assignEndpoint x p) eps =
              pre @ merged # post"
    unfolding m by blast
  from npre have np: "\<not> list_ex (\<lambda>x. ep_id x = eid) pre" by (simp add: list_ex_iff)
  let ?collides = "list_ex (\<lambda>other. ep_id other \<noteq> eid \<and>
                  ep_method other = (case pp_method p of None \<Rightarrow> ep_method e | Some v \<Rightarrow> v) \<and>
                  ep_path other = (case pp_path p of None \<Rightarrow> ep_path e | Some v \<Rightarrow> v)) eps"
  have same: "(\<lambda>other. ep_id other \<noteq> eid \<and>
                ep_path other = (case pp_path p of None \<Rightarrow> ep_path e | Some v \<Rightarrow> v) \<and>
                ep_method other = (case pp_method p of None \<Rightarrow> ep_method e | Some v \<Rightarrow> v)) =
        (\<lambda>other. ep_id other \<noteq> eid \<and>
                ep_method other = (case pp_method p of None \<Rightarrow> ep_method e | Some v \<Rightarrow> v) \<and>
                ep_path other = (case pp_path p of None \<Rightarrow> ep_path e | Some v \<Rightarrow> v))"
    by auto
  show ?thesis
  proof (cases ?collides)
    case True
    with w f t show ?thesis
      unfolding same [symmetric]
      by (auto simp: Let_def noEffect_def)
  next
    case False
    then have "applyOperation w (UpdateEndpoint eid p) =
       Inr \<lparr> res_spec = w\<lparr>endpoints := Some (pre @ merged # post)\<rparr>, conflicts = [],
             impacts = [endpointImpact (ep_method merged) (ep_path merged) ''updated''
                          [''openapi.json'',
                           ''src/routes/'' @ sanitizePath (ep_path merged) @ ''.ts'']] \<rparr>"
      using w f t upd
      unfolding same [symmetric]
      by (auto simp: Let_def applied_def m)
    with sp np have "\<exists>pre post i. eps = pre @ e # post \<and> \<not> list_ex (\<lambda>x. ep_id x = eid) pre \<and>
           applyOperation w (UpdateEndpoint eid p) =
             Inr \<lparr> res_spec = w\<lparr>endpoints := Some (pre @ merged # post)\<rparr>,
                   conflicts = [], impacts = [i] \<rparr>"
      by blast
    with False show ?thesis
      unfolding merged_def [symmetric]
      by (simp only: if_False)
  qed
qed

text \<open>
  The theorem at a colliding new path, and at a patch that changes method, path and schema
  of the second of three endpoints.
\<close>

theorem update_endpoint_collision_witness:
  "(\<exists>c. applyOperation (mkSpec [] [mkEndpoint ''1'' GET ''/a'', mkEndpoint ''2'' GET ''/b''])
          (UpdateEndpoint ''1''
             \<lparr> pp_id = None, pp_method = None, pp_path = Some ''/b'', pp_schema = None \<rparr>)
        = Inr \<lparr> res_spec = mkSpec [] [mkEndpoint ''1'' GET ''/a'', mkEndpoint ''2'' GET ''/b''],
                conflicts = [c], impacts = [] \<rparr> \<and> ctype c = Naming) \<and>
   (\<exists>i. applyOperation (mkSpec [] [mkEndpoint ''0'' GET ''/z'', mkEndpoint ''1'' GET ''/a'',
                                    mkEndpoint ''2'' GET ''/b''])
          (UpdateEndpoint ''1''
             \<lparr> pp_id = None, pp_method = Some POST, pp_path = Some ''/b'',
               pp_schema = Some (JStr ''body'') \<rparr>)
        = Inr \<lparr> res_spec = mkSpec [] [mkEndpoint ''0'' GET ''/z'',
                                       \<lparr> ep_id = ''1'', ep_method = POST, ep_path = ''/b'',
                                         ep_schema = JStr ''body'' \<rparr>,
                                       mkEndpoint ''2'' GET ''/b''],
                conflicts = [], impacts = [i] \<rparr>)"
proof -
  let ?two = "[mkEndpoint ''1'' GET ''/a'', mkEndpoint ''2'' GET ''/b'']"
  let ?three = "[mkEndpoint ''0'' GET ''/z'', mkEndpoint ''1'' GET ''/a'',
                 mkEndpoint ''2'' GET ''/b'']"
  let ?p = "\<lparr> pp_id = None, pp_method = Some POST, pp_path = Some ''/b'',
               pp_schema = Some (JStr ''body'') \<rparr>"
  have first: "\<exists>c. applyOperation (mkSpec [] ?two)
          (UpdateEndpoint ''1''
             \<lparr> pp_id = None, pp_method = None, pp_path = Some ''/b'', pp_schema = None \<rparr>)
        = Inr \<lparr> res_spec = mkSpec [] ?two, conflicts = [c], impacts = [] \<rparr> \<and> ctype c = Naming"
    using update_endpoint_collision [of "mkSpec [] ?two" ?two "''1''"
      "mkEndpoint ''1'' GET ''/a''"
      "\<lparr> pp_id = None, pp_method = None, pp_path = Some ''/b'', pp_schema = None \<rparr>"]
    by (simp add: mkSpec_def mkEndpoint_def truthy_def)
  have "\<exists>pre post i. ?three = pre @ mkEndpoint ''1'' GET ''/a'' # post \<and>
           \<not> list_ex (\<lambda>x. ep_id x = ''1'') pre \<and>
           applyOperation (mkSpec [] ?three) (UpdateEndpoint ''1'' ?p) =
             Inr \<lparr> res_spec = (mkSpec [] ?three)\<lparr>endpoints := Some (pre @
                      \<lparr> ep_id = ''1'', ep_method = POST, ep_path = ''/b'',
                        ep_schema = JStr ''body'' \<rparr> # post)\<rparr>,
                   conflicts = [], impacts = [i] \<rparr>"
    using update_endpoint_collision [of "mkSpec [] ?three" ?three "''1''"
      "mkEndpoint ''1'' GET ''/a''" ?p]
    by (simp add: mkSpec_def mkEndpoint_def truthy_def)
  then obtain pre post i where sp: "?three = pre @ mkEndpoint ''1'' GET ''/a'' # post"
    and np: "\<not> list_ex (\<lambda>x. ep_id x = ''1'') pre"
    and run: "applyOperation (mkSpec [] ?three) (UpdateEndpoint ''1'' ?p) =
             Inr \<lparr> res_spec = (mkSpec [] ?three)\<lparr>endpoints := Some (pre @
                      \<lparr> ep_id = ''1'', ep_method = POST, ep_path = ''/b'',
                        ep_schema = JStr ''body'' \<rparr> # post)\<rparr>,
                   conflicts = [], impacts = [i] \<rparr>"
    by (elim exE conjE)
  have "pre = [mkEndpoint ''0'' GET ''/z''] \<and> post = [mkEndpoint ''2'' GET ''/b'']"
  proof (cases pre)
    case Nil
    with sp show ?thesis by (simp add: mkEndpoint_def)
  next
    case (Cons a pre')
    note c1 = this
    show ?thesis
    proof (cases pre')
      case Nil
      with sp c1 show ?thesis by simp
    next
      case (Cons b pre'')
      with sp c1 have "b = mkEndpoint ''1'' GET ''/a''" by simp
      with np c1 Cons show ?thesis by (simp add: mkEndpoint_def)
    qed
  qed
  with run have "\<exists>i. applyOperation (mkSpec [] ?three) (UpdateEndpoint ''1'' ?p) =
       Inr \<lparr> res_spec = mkSpec [] [mkEndpoint ''0'' GET ''/z'',
                                       \<lparr> ep_id = ''1'', ep_method = POST, ep_path = ''/b'',
                                         ep_schema = JStr ''body'' \<rparr>,
                                       mkEndpoint ''2'' GET ''/b''],
                conflicts = [], impacts = [i] \<rparr>"
    by (auto simp: mkSpec_def)
  with first show ?thesis by blast
qed

section \<open>Renaming an entity to the empty string\<close>


lemma fieldConflicts_empty_iff:
  "fieldConflicts e = [] \<longleftrightarrow> (\<forall>f\<in>set (ent_fields e). fld_name f \<noteq> [] \<and> fld_type f \<noteq> [])"
  by (auto simp: fieldConflicts_def filter_empty_conv)

text \<open>
  When no relation names the empty string or the old name of \<open>E\<close>, every relation resolves
  after the renaming to the entity it resolved to before, so the cycle search takes the same
  steps on the renamed list.
\<close>

lemma renamed_simps [simp]:
  "ent_id (renamed E x) = ent_id x" "ent_relations (renamed E x) = ent_relations x"
  "ent_fields (renamed E x) = ent_fields x"
  by (simp_all add: renamed_def)









section \<open>What a call leaves in the store\<close>

lemma cloneObjs_extends:
  "cloneObjs h as = Some (h', as') \<Longrightarrow>
   (\<exists>ext. h' = h @ ext) \<and> (\<forall>a\<in>set as'. length h \<le> a)"
proof (induction as arbitrary: h as')
  case Nil
  then show ?case by simp
next
  case (Cons a as)
  from Cons.prems obtain v rest where
    v: "readObj h a = Some v" and r: "cloneObjs (h @ [v]) as = Some (h', rest)"
    and as': "as' = length h # rest"
    by (auto split: option.splits)
  from Cons.IH [OF r] as' show ?case by fastforce
qed

lemma cloneList_extends:
  "cloneList h refs = Some (h', refs') \<Longrightarrow>
   (\<exists>ext. h' = h @ ext) \<and> (\<forall>a\<in>refsOf refs'. length h \<le> a)"
  using cloneObjs_extends
  by (cases refs) (fastforce simp: cloneList_def refsOf_def)+

lemma cloneSpec_extends:
  assumes "cloneSpec h s = Some (h', w)"
  shows "(\<exists>ext. h' = h @ ext) \<and> (\<forall>a\<in>specRefs w. length h \<le> a)"
proof -
  from assms obtain h1 rs h2 es eps where
    c1: "cloneList h (requirement_refs s) = Some (h1, rs)"
    and c2: "cloneList h1 (entity_refs s) = Some (h2, es)"
    and c3: "cloneList h2 (endpoint_refs s) = Some (h', eps)"
    and w: "w = s\<lparr>requirement_refs := rs, entity_refs := es, endpoint_refs := eps\<rparr>"
    by (auto simp: cloneSpec_def split: option.splits)
  from cloneList_extends [OF c1] cloneList_extends [OF c2] cloneList_extends [OF c3]
  show ?thesis
    by (auto simp: specRefs_def w)
qed

lemma find_zip_left:
  "find P (zip refs vs) = Some (a, v) \<Longrightarrow> a \<in> set refs"
  by (auto simp: find_Some_iff dest: set_zip_leftD nth_mem)

lemma kept_refs:
  "set (map fst (filter P (zip refs vs))) \<subseteq> set refs"
  by (auto dest: set_zip_leftD)

lemma refsOf_Some [simp]: "refsOf (Some as) = set as"
  by (simp add: refsOf_def)

lemma specRefs_update [simp]:
  "specRefs (w\<lparr>requirement_refs := x\<rparr>) =
     refsOf x \<union> refsOf (entity_refs w) \<union> refsOf (endpoint_refs w)"
  "specRefs (w\<lparr>entity_refs := x\<rparr>) =
     refsOf (requirement_refs w) \<union> refsOf x \<union> refsOf (endpoint_refs w)"
  "specRefs (w\<lparr>endpoint_refs := x\<rparr>) =
     refsOf (requirement_refs w) \<union> refsOf (entity_refs w) \<union> refsOf x"
  "specRefs (w\<lparr>folder_val := f\<rparr>) = specRefs w"
  by (simp_all add: specRefs_def)

lemma specRefs_parts:
  "specRefs w \<subseteq> W \<Longrightarrow>
   refsOf (requirement_refs w) \<subseteq> W \<and> refsOf (entity_refs w) \<subseteq> W \<and>
   refsOf (endpoint_refs w) \<subseteq> W"
  by (simp add: specRefs_def)

lemma write_frame:
  "a \<in> W \<Longrightarrow> b \<notin> W \<Longrightarrow> h[a := v] ! b = h ! b"
  by (cases "a = b") auto

lemma find_zip_frame:
  "find P (zip refs vs) = Some (a, v) \<Longrightarrow> set refs \<subseteq> W \<Longrightarrow> b \<notin> W \<Longrightarrow>
   h[a := x] ! b = h ! b"
  using find_zip_left write_frame by fast

lemma applyOperation_refs_frame:
  assumes run: "applyOperation_refs h w operation = Inr r"
    and w: "specRefs w \<subseteq> W" and ad: "addedRef operation \<subseteq> W"
  shows "specRefs (sr_spec r) \<subseteq> W \<and> length (sr_heap r) = length h \<and>
         (\<forall>a. a \<notin> W \<longrightarrow> sr_heap r ! a = h ! a)"
proof -
  note parts = specRefs_parts [OF w]
  show ?thesis
  proof (cases operation)
    case (RAddRequirement a)
    with run parts ad w show ?thesis
      by (auto simp: skipped_def committed_def split: option.splits if_splits)
  next
    case (RUpdateRequirement rid p)
    from run this obtain refs where a: "requirement_refs w = Some refs"
      by (cases "requirement_refs w") auto
    from run RUpdateRequirement a obtain vs where b: "readAll getRequirement h refs = Some vs"
      by (cases "readAll getRequirement h refs") auto
    from parts a have inW: "set refs \<subseteq> W" by simp
    show ?thesis
    proof (cases "find (\<lambda>(a, x). req_id x = rid) (zip refs vs)")
      case None
      with run RUpdateRequirement a b w show ?thesis by (auto simp: skipped_def)
    next
      case (Some pr)
      obtain x v where pr: "pr = (x, v)" by (cases pr)
      with Some have "x \<in> set refs" by (auto dest: find_zip_left)
      with inW have xW: "x \<in> W" by auto
      from run RUpdateRequirement a b Some pr
      have "sr_spec r = w" "sr_heap r = h \<or> sr_heap r = h[x := RequirementObj (assignRequirement v p)]"
        by (auto simp: skipped_def committed_def Let_def split: if_splits)
      with xW w show ?thesis by (auto simp: write_frame)
    qed
  next
    case (RRemoveRequirement rid)
    from run this obtain refs where a: "requirement_refs w = Some refs"
      by (cases "requirement_refs w") auto
    from run RRemoveRequirement a obtain vs where b: "readAll getRequirement h refs = Some vs"
      by (cases "readAll getRequirement h refs") auto
    from parts a have "set refs \<subseteq> W" by simp
    with kept_refs
    have k: "set (map fst (filter (\<lambda>(a, r). req_id r \<noteq> rid) (zip refs vs))) \<subseteq> W"
      by fast
    from run RRemoveRequirement a b have "sr_heap r = h"
      "sr_spec r = w\<lparr>requirement_refs :=
                 Some (map fst (filter (\<lambda>(a, r). req_id r \<noteq> rid) (zip refs vs)))\<rparr>"
      by (auto simp: skipped_def committed_def Let_def split: if_splits)
    with parts k show ?thesis by simp
  next
    case (RAddEntity a)
    with run parts ad w show ?thesis
      by (auto simp: skipped_def committed_def split: option.splits if_splits)
  next
    case (RUpdateEntity eid p)
    from run this obtain refs where a: "entity_refs w = Some refs"
      by (cases "entity_refs w") auto
    from run RUpdateEntity a obtain vs where b: "readAll getEntity h refs = Some vs"
      by (cases "readAll getEntity h refs") auto
    from parts a have inW: "set refs \<subseteq> W" by simp
    show ?thesis
    proof (cases "find (\<lambda>(a, x). ent_id x = eid) (zip refs vs)")
      case None
      with run RUpdateEntity a b w show ?thesis by (auto simp: skipped_def)
    next
      case (Some pr)
      obtain x v where pr: "pr = (x, v)" by (cases pr)
      with Some have "x \<in> set refs" by (auto dest: find_zip_left)
      with inW have xW: "x \<in> W" by auto
      from run RUpdateEntity a b Some pr
      have "sr_spec r = w" "sr_heap r = h \<or> sr_heap r = h[x := EntityObj (assignEntity v p)]"
        by (auto simp: skipped_def committed_def Let_def split: if_splits)
      with xW w show ?thesis by (auto simp: write_frame)
    qed
  next
    case (RRemoveEntity eid)
    from run this obtain refs where a: "entity_refs w = Some refs"
      by (cases "entity_refs w") auto
    from run RRemoveEntity a obtain vs where b: "readAll getEntity h refs = Some vs"
      by (cases "readAll getEntity h refs") auto
    from parts a have "set refs \<subseteq> W" by simp
    with kept_refs
    have k: "set (map fst (filter (\<lambda>(a, x). ent_id x \<noteq> eid) (zip refs vs))) \<subseteq> W"
      by fast
    from run RRemoveEntity a b have "sr_heap r = h \<and>
      (sr_spec r = w \<or> sr_spec r = w\<lparr>entity_refs :=
                 Some (map fst (filter (\<lambda>(a, x). ent_id x \<noteq> eid) (zip refs vs)))\<rparr>)"
      by (auto simp: skipped_def committed_def split: option.splits)
    then show ?thesis
    proof (elim conjE disjE)
      assume "sr_heap r = h" "sr_spec r = w"
      with w show ?thesis by simp
    next
      assume "sr_heap r = h" "sr_spec r = w\<lparr>entity_refs :=
                 Some (map fst (filter (\<lambda>(a, x). ent_id x \<noteq> eid) (zip refs vs)))\<rparr>"
      with parts k show ?thesis by simp
    qed
  next
    case (RAddEndpoint a)
    with run parts ad w show ?thesis
      by (auto simp: skipped_def committed_def split: option.splits if_splits)
  next
    case (RUpdateEndpoint eid p)
    from run this obtain refs where a: "endpoint_refs w = Some refs"
      by (cases "endpoint_refs w") auto
    from run RUpdateEndpoint a obtain vs where b: "readAll getEndpoint h refs = Some vs"
      by (cases "readAll getEndpoint h refs") auto
    from parts a have inW: "set refs \<subseteq> W" by simp
    show ?thesis
    proof (cases "find (\<lambda>(a, x). ep_id x = eid) (zip refs vs)")
      case None
      with run RUpdateEndpoint a b w show ?thesis by (auto simp: skipped_def)
    next
      case (Some pr)
      obtain x v where pr: "pr = (x, v)" by (cases pr)
      with Some have "x \<in> set refs" by (auto dest: find_zip_left)
      with inW have xW: "x \<in> W" by auto
      from run RUpdateEndpoint a b Some pr
      have "sr_spec r = w" "sr_heap r = h \<or> sr_heap r = h[x := EndpointObj (assignEndpoint v p)]"
        by (auto simp: skipped_def committed_def Let_def split: if_splits)
      with xW w show ?thesis by (auto simp: write_frame)
    qed
  next
    case (RRemoveEndpoint eid)
    from run this obtain refs where a: "endpoint_refs w = Some refs"
      by (cases "endpoint_refs w") auto
    from run RRemoveEndpoint a obtain vs where b: "readAll getEndpoint h refs = Some vs"
      by (cases "readAll getEndpoint h refs") auto
    from parts a have "set refs \<subseteq> W" by simp
    with kept_refs
    have k: "set (map fst (filter (\<lambda>(a, x). ep_id x \<noteq> eid) (zip refs vs))) \<subseteq> W"
      by fast
    from run RRemoveEndpoint a b have "sr_heap r = h \<and>
      (sr_spec r = w \<or> sr_spec r = w\<lparr>endpoint_refs :=
                 Some (map fst (filter (\<lambda>(a, x). ep_id x \<noteq> eid) (zip refs vs)))\<rparr>)"
      by (auto simp: skipped_def committed_def split: option.splits)
    then show ?thesis
    proof (elim conjE disjE)
      assume "sr_heap r = h" "sr_spec r = w"
      with w show ?thesis by simp
    next
      assume "sr_heap r = h" "sr_spec r = w\<lparr>endpoint_refs :=
                 Some (map fst (filter (\<lambda>(a, x). ep_id x \<noteq> eid) (zip refs vs)))\<rparr>"
      with parts k show ?thesis by simp
    qed
  next
    case (RUpdateFolderStructure f)
    with run w show ?thesis by (auto simp: committed_def)
  next
    case (RUnsupported t)
    with run w show ?thesis by (auto simp: skipped_def)
  qed
qed

lemma applyOperation_refs_throws:
  "applyOperation_refs h w operation = Inl (err, h') \<Longrightarrow> h' = h"
  by (cases operation)
     (auto simp: Let_def split: option.splits if_splits prod.splits)

lemma applyOperations_refs_leaves:
  "specRefs (sr_spec st) \<subseteq> W \<Longrightarrow> addedRefs ops \<subseteq> W \<Longrightarrow>
   length (storeAfter (applyOperations_refs st ops)) = length (sr_heap st) \<and>
   (\<forall>a. a \<notin> W \<longrightarrow> storeAfter (applyOperations_refs st ops) ! a = sr_heap st ! a)"
proof (induction ops arbitrary: st)
  case Nil
  then show ?case by (simp add: storeAfter_def)
next
  case (Cons operation rest)
  from Cons.prems(2) have ad: "addedRef operation \<subseteq> W" "addedRefs rest \<subseteq> W"
    by (auto simp: addedRefs_def)
  show ?case
  proof (cases "applyOperation_refs (sr_heap st) (sr_spec st) operation")
    case (Inl x)
    obtain err h' where x: "x = (err, h')" by (cases x)
    with Inl applyOperation_refs_throws have "h' = sr_heap st" by blast
    with Inl x show ?thesis by (simp add: storeAfter_def)
  next
    case (Inr r1)
    let ?st1 = "\<lparr> sr_heap = sr_heap r1, sr_spec = sr_spec r1,
                  sr_conflicts = sr_conflicts st @ sr_conflicts r1,
                  sr_impacts = sr_impacts st @ sr_impacts r1 \<rparr>"
    from applyOperation_refs_frame [OF Inr Cons.prems(1) ad(1)]
    have f1: "specRefs (sr_spec r1) \<subseteq> W" "length (sr_heap r1) = length (sr_heap st)"
      "\<forall>a. a \<notin> W \<longrightarrow> sr_heap r1 ! a = sr_heap st ! a"
      by auto
    from Cons.IH [of ?st1] f1 ad(2) Inr show ?thesis by simp
  qed
qed

lemma applyOperations_refs_frame:
  "applyOperations_refs st ops = Inr r \<Longrightarrow>
   specRefs (sr_spec st) \<subseteq> W \<Longrightarrow> addedRefs ops \<subseteq> W \<Longrightarrow>
   length (sr_heap r) = length (sr_heap st) \<and>
   (\<forall>a. a \<notin> W \<longrightarrow> sr_heap r ! a = sr_heap st ! a)"
  using applyOperations_refs_leaves [of st W ops] by (simp add: storeAfter_def)

text \<open>
  After the loop nothing is written any more: the store a call leaves is the store the loop
  leaves, whether the validator returns or throws.
\<close>

lemma storeAfter_call:
  "cloneSpec h currentSpec = Some (h1, w) \<Longrightarrow> rr_operations changeRequest = Some ops \<Longrightarrow>
   storeAfter (applyChangeRequestToSpec_refs h currentSpec changeRequest) =
   storeAfter (applyOperations_refs
                 \<lparr> sr_heap = h1, sr_spec = w, sr_conflicts = [], sr_impacts = [] \<rparr> ops)"
  by (auto simp: applyChangeRequestToSpec_refs_def storeAfter_def
           split: sum.splits option.splits)

text \<open>
  The frame of a call: an object that was in the store before the call and is not handed
  over by an add operation of the request is the same after the call, whatever the outcome.
\<close>

lemma call_leaves:
  assumes a: "a < length h"
    and na: "a \<notin> (case rr_operations changeRequest of None \<Rightarrow> {} | Some ops \<Rightarrow> addedRefs ops)"
  shows "readObj (storeAfter (applyChangeRequestToSpec_refs h currentSpec changeRequest)) a =
         readObj h a"
proof (cases "cloneSpec h currentSpec")
  case None
  then show ?thesis by (simp add: applyChangeRequestToSpec_refs_def storeAfter_def)
next
  case (Some pr)
  obtain h1 w where pr: "pr = (h1, w)" by (cases pr)
  from cloneSpec_extends [of h currentSpec h1 w] Some pr obtain ext where
    ext: "h1 = h @ ext" and fresh: "\<forall>a\<in>specRefs w. length h \<le> a"
    by auto
  from a ext have h1: "readObj h1 a = readObj h a" by (simp add: readObj_def nth_append)
  show ?thesis
  proof (cases "rr_operations changeRequest")
    case None
    with Some pr h1 show ?thesis
      by (simp add: applyChangeRequestToSpec_refs_def storeAfter_def)
  next
    case ops: (Some ops)
    define W where "W = {b. length h \<le> b} \<union> addedRefs ops"
    let ?loop = "applyOperations_refs
                   \<lparr> sr_heap = h1, sr_spec = w, sr_conflicts = [], sr_impacts = [] \<rparr> ops"
    from fresh have "specRefs w \<subseteq> W" by (auto simp: W_def)
    moreover have "addedRefs ops \<subseteq> W" by (simp add: W_def)
    ultimately have fr: "length (storeAfter ?loop) = length h1"
      "\<forall>b. b \<notin> W \<longrightarrow> storeAfter ?loop ! b = h1 ! b"
      using applyOperations_refs_leaves [of "\<lparr> sr_heap = h1, sr_spec = w, sr_conflicts = [],
                                              sr_impacts = [] \<rparr>" W ops]
      by auto
    from a na ops have "a \<notin> W" by (simp add: W_def)
    with fr have "readObj (storeAfter ?loop) a = readObj h1 a" by (simp add: readObj_def)
    with h1 storeAfter_call [of h currentSpec h1 w changeRequest ops] Some pr ops
    show ?thesis by simp
  qed
qed

section \<open>Parsing a request\<close>

lemma parseOperation_extends:
  "parseOperation h operation = (h', r) \<Longrightarrow>
   (\<exists>ext. h' = h @ ext) \<and> (\<forall>a\<in>addedRef r. length h \<le> a)"
  by (cases operation) auto

lemma parseOperations_extends:
  "parseOperations h ops = (h', rs) \<Longrightarrow>
   (\<exists>ext. h' = h @ ext) \<and> (\<forall>a\<in>addedRefs rs. length h \<le> a)"
proof (induction ops arbitrary: h h' rs)
  case Nil
  then show ?case by (simp add: addedRefs_def)
next
  case (Cons operation rest)
  from Cons.prems obtain h1 r rest' where
    p1: "parseOperation h operation = (h1, r)"
    and p2: "parseOperations h1 rest = (h', rest')" and rs: "rs = r # rest'"
    by (auto split: prod.splits)
  from parseOperation_extends [OF p1] obtain e1 where
    e1: "h1 = h @ e1" and a1: "\<forall>a\<in>addedRef r. length h \<le> a"
    by blast
  from Cons.IH [OF p2] obtain e2 where
    e2: "h' = h1 @ e2" and a2: "\<forall>a\<in>addedRefs rest'. length h1 \<le> a"
    by blast
  from e1 e2 a1 a2 rs show ?case by (fastforce simp: addedRefs_def)
qed

lemma parseRequest_extends:
  "parseRequest h changeRequest = (h', request) \<Longrightarrow>
   (\<exists>ext. h' = h @ ext) \<and>
   (\<forall>a\<in>(case rr_operations request of None \<Rightarrow> {} | Some ops \<Rightarrow> addedRefs ops).
      length h \<le> a)"
  using parseOperations_extends
  by (cases "operations changeRequest") (fastforce simp: parseRequest_def split: prod.splits)+

lemma readList_cong:
  assumes "\<And>a. a \<in> refsOf refs \<Longrightarrow> get h' a = get h a"
  shows "readList get h' refs = readList get h refs"
proof (cases refs)
  case None
  then show ?thesis by (simp add: readList_def)
next
  case (Some as)
  with assms have eq: "map (get h') as = map (get h) as" by simp
  show ?thesis by (simp add: readList_def readAll_def Some eq)
qed

lemma snapshot_cong:
  assumes "\<forall>a\<in>specRefs s. readObj h' a = readObj h a"
  shows "snapshot h' s = snapshot h s"
proof -
  have e1: "readList getRequirement h' (requirement_refs s) =
        readList getRequirement h (requirement_refs s)"
    using assms by (intro readList_cong) (simp add: specRefs_def getRequirement_def)
  have e2: "readList getEntity h' (entity_refs s) = readList getEntity h (entity_refs s)"
    using assms by (intro readList_cong) (simp add: specRefs_def getEntity_def)
  have e3: "readList getEndpoint h' (endpoint_refs s) =
            readList getEndpoint h (endpoint_refs s)"
    using assms by (intro readList_cong) (simp add: specRefs_def getEndpoint_def)
  show ?thesis by (simp only: snapshot_def e1 e2 e3)
qed

section \<open>The store model agrees with the value model\<close>

lemma readAll_iff:
  "readAll get h refs = Some vs \<longleftrightarrow> list_all2 (\<lambda>a v. get h a = Some v) refs vs"
proof (induction refs arbitrary: vs)
  case Nil
  then show ?case by (auto simp: readAll_def)
next
  case (Cons a refs)
  then show ?case
    by (cases vs) (auto simp: readAll_def split: option.splits)
qed

lemma find_zip_values:
  "list_all2 R refs vs \<Longrightarrow>
   map_option snd (find (\<lambda>(a, x). P x) (zip refs vs)) = find P vs"
  by (induction rule: list_all2_induct) auto

lemma held_update:
  "list_all2 (\<lambda>a v. g a = Some v) refs vs \<Longrightarrow> distinct refs \<Longrightarrow>
   find (\<lambda>(a, x). P x) (zip refs vs) = Some (a, x) \<Longrightarrow>
   (\<And>b. b \<noteq> a \<Longrightarrow> g' b = g b) \<Longrightarrow> g' a = Some (f x) \<Longrightarrow>
   list_all2 (\<lambda>a v. g' a = Some v) refs (update_first P f vs)"
proof (induction rule: list_all2_induct)
  case Nil
  then show ?case by simp
next
  case (Cons b refs v vs)
  show ?case
  proof (cases "P v")
    case True
    with Cons.prems(2) have "a = b" "x = v" by simp_all
    moreover from Cons.prems(1) \<open>a = b\<close> have "\<forall>c\<in>set refs. c \<noteq> a" by auto
    then have "list_all2 (\<lambda>a v. g' a = Some v) refs vs"
      using Cons.hyps(2) Cons.prems(3)
      by (auto simp: list_all2_conv_all_nth)
    ultimately show ?thesis using True Cons.prems(4) by simp
  next
    case False
    with Cons.prems(2) have f: "find (\<lambda>(a, x). P x) (zip refs vs) = Some (a, x)" by simp
    then have "a \<in> set refs" by (rule find_zip_left)
    with Cons.prems(1) have "b \<noteq> a" by auto
    with Cons.hyps(1) Cons.prems(3) have "g' b = Some v" by simp
    moreover from Cons.prems(1) have "distinct refs" by simp
    from Cons.IH [OF this f Cons.prems(3,4)]
    have "list_all2 (\<lambda>a v. g' a = Some v) refs (update_first P f vs)" by simp
    ultimately show ?thesis using False by simp
  qed
qed

lemma held_frame:
  "list_all2 (\<lambda>a v. g a = Some v) refs vs \<Longrightarrow>
   (\<And>b. b \<in> set refs \<Longrightarrow> g' b = g b) \<Longrightarrow>
   list_all2 (\<lambda>a v. g' a = Some v) refs vs"
  by (auto simp: list_all2_conv_all_nth)

lemma held_filter:
  "list_all2 R refs vs \<Longrightarrow>
   list_all2 R (map fst (filter (\<lambda>(a, x). Q x) (zip refs vs))) (filter Q vs)"
  by (induction rule: list_all2_induct) auto

lemma kept_length:
  "list_all2 R refs vs \<Longrightarrow>
   length (filter (\<lambda>(a, x). Q x) (zip refs vs)) = length (filter Q vs)"
  by (induction rule: list_all2_induct) auto

lemma kept_distinct:
  "distinct refs \<Longrightarrow> distinct (map fst (filter P (zip refs vs)))"
proof (induction refs arbitrary: vs)
  case Nil
  then show ?case by simp
next
  case (Cons a refs)
  then show ?case
    by (cases vs) (auto dest!: set_zip_leftD)
qed

lemma update_first_find_none:
  "find P xs = None \<Longrightarrow> update_first P f xs = xs"
  by (induction xs) (auto split: if_splits)

lemma snapshot_Some_iff:
  "snapshot h w = Some v \<longleftrightarrow>
     readList getRequirement h (requirement_refs w) = Some (requirements v) \<and>
     readList getEntity h (entity_refs w) = Some (entities v) \<and>
     readList getEndpoint h (endpoint_refs w) = Some (endpoints v) \<and>
     folder_structure v = folder_val w \<and> passengers v = passenger_vals w"
  by (cases v) (auto simp: snapshot_def split: option.splits)

lemma readList_Some_iff:
  "readList get h (Some refs) = Some x \<longleftrightarrow>
     (\<exists>vs. x = Some vs \<and> list_all2 (\<lambda>a v. get h a = Some v) refs vs)"
  by (auto simp: readList_def readAll_iff)

lemma readList_None_iff:
  "readList get h None = Some x \<longleftrightarrow> x = None"
  by (auto simp: readList_def)

lemma get_write:
  "a < length h \<Longrightarrow> getRequirement (h[a := RequirementObj r]) a = Some r"
  "a < length h \<Longrightarrow> getEntity (h[a := EntityObj e]) a = Some e"
  "a < length h \<Longrightarrow> getEndpoint (h[a := EndpointObj p]) a = Some p"
  by (simp_all add: getRequirement_def getEntity_def getEndpoint_def readObj_def)

lemma get_write_other:
  "b \<noteq> a \<Longrightarrow> getRequirement (h[a := v]) b = getRequirement h b"
  "b \<noteq> a \<Longrightarrow> getEntity (h[a := v]) b = getEntity h b"
  "b \<noteq> a \<Longrightarrow> getEndpoint (h[a := v]) b = getEndpoint h b"
  by (simp_all add: getRequirement_def getEntity_def getEndpoint_def readObj_def)

lemma get_kinds:
  "getRequirement h a = Some r \<Longrightarrow> getEntity h a = None \<and> getEndpoint h a = None"
  "getEntity h a = Some e \<Longrightarrow> getRequirement h a = None \<and> getEndpoint h a = None"
  "getEndpoint h a = Some p \<Longrightarrow> getRequirement h a = None \<and> getEntity h a = None"
  by (auto simp: getRequirement_def getEntity_def getEndpoint_def split: option.splits obj.splits)

lemma get_allocated:
  "getRequirement h a = Some r \<Longrightarrow> a < length h"
  "getEntity h a = Some e \<Longrightarrow> a < length h"
  "getEndpoint h a = Some p \<Longrightarrow> a < length h"
  by (auto simp: getRequirement_def getEntity_def getEndpoint_def readObj_def
           split: option.splits obj.splits if_splits)

lemma find_member: "find P xs = Some x \<Longrightarrow> x \<in> set xs"
  by (auto simp: find_Some_iff)

lemma held_member:
  "list_all2 R refs vs \<Longrightarrow> find P (zip refs vs) = Some (a, x) \<Longrightarrow> R a x"
  by (auto simp: list_all2_iff dest!: find_member)

lemma held_elem:
  "list_all2 (\<lambda>a v. g a = Some v) refs vs \<Longrightarrow> b \<in> set refs \<Longrightarrow> \<exists>y. g b = Some y"
  by (auto simp: list_all2_conv_all_nth in_set_conv_nth)

lemma readList_write_other:
  assumes "readList get h refs = Some vals"
    and "\<And>b y. get h b = Some y \<Longrightarrow> b \<noteq> a"
    and "\<And>b. b \<noteq> a \<Longrightarrow> get (h[a := x]) b = get h b"
  shows "readList get (h[a := x]) refs = Some vals"
proof (cases refs)
  case None
  with assms(1) show ?thesis by (simp add: readList_def)
next
  case (Some as)
  with assms(1) obtain vs where v: "vals = Some vs"
    and held: "list_all2 (\<lambda>a v. get h a = Some v) as vs"
    by (auto simp: readList_Some_iff)
  have "list_all2 (\<lambda>b v. get (h[a := x]) b = Some v) as vs"
  proof (rule held_frame [where g = "get h", OF held])
    fix b
    assume "b \<in> set as"
    with held_elem [where g = "get h", OF held] obtain y where "get h b = Some y" by blast
    with assms(2) have "b \<noteq> a" by blast
    with assms(3) show "get (h[a := x]) b = get h b" by blast
  qed
  with Some v show ?thesis by (simp add: readList_Some_iff)
qed

lemma write_keeps:
  "getEntity h a = Some e \<Longrightarrow> readList getRequirement h refs = Some rs \<Longrightarrow>
     readList getRequirement (h[a := x]) refs = Some rs"
  "getEntity h a = Some e \<Longrightarrow> readList getEndpoint h refs = Some ps \<Longrightarrow>
     readList getEndpoint (h[a := x]) refs = Some ps"
  "getRequirement h a = Some r \<Longrightarrow> readList getEntity h refs = Some es \<Longrightarrow>
     readList getEntity (h[a := x]) refs = Some es"
  "getRequirement h a = Some r \<Longrightarrow> readList getEndpoint h refs = Some ps \<Longrightarrow>
     readList getEndpoint (h[a := x]) refs = Some ps"
  "getEndpoint h a = Some p \<Longrightarrow> readList getRequirement h refs = Some rs \<Longrightarrow>
     readList getRequirement (h[a := x]) refs = Some rs"
  "getEndpoint h a = Some p \<Longrightarrow> readList getEntity h refs = Some es \<Longrightarrow>
     readList getEntity (h[a := x]) refs = Some es"
  by (erule readList_write_other; (auto dest: get_kinds simp: get_write_other)[1])+

lemma addRequirement_agrees:
  assumes rep: "snapshot h w = Some v" and obj: "getRequirement h a = Some e"
  shows "rel_sum thrown agrees (applyOperation_refs h w (RAddRequirement a))
           (applyOperation v (AddRequirement e))"
proof -
  from rep have rq: "readList getRequirement h (requirement_refs w) = Some (requirements v)"
    and en: "readList getEntity h (entity_refs w) = Some (entities v)"
    and ep: "readList getEndpoint h (endpoint_refs w) = Some (endpoints v)"
    and fo: "folder_structure v = folder_val w" and pa: "passengers v = passenger_vals w"
    by (simp_all add: snapshot_Some_iff)
  show ?thesis
  proof (cases "requirement_refs w")
    case None
    with rq have "requirements v = None" by (simp add: readList_None_iff)
    with None show ?thesis by simp
  next
    case (Some refs)
    with rq obtain vs where vs: "requirements v = Some vs"
      and held: "list_all2 (\<lambda>a x. getRequirement h a = Some x) refs vs"
      by (auto simp: readList_Some_iff)
    then have ra: "readAll getRequirement h refs = Some vs" by (simp add: readAll_iff)
    show ?thesis
    proof (cases "list_ex (\<lambda>r. req_id r = req_id e) vs")
      case True
      with Some vs ra obj rep show ?thesis
        by (simp add: agrees_def skipped_def noEffect_def)
    next
      case False
      from held obj have "list_all2 (\<lambda>a x. getRequirement h a = Some x) (refs @ [a]) (vs @ [e])"
        by (simp add: list_all2_appendI)
      with en ep fo pa
      have "snapshot h (w\<lparr>requirement_refs := Some (refs @ [a])\<rparr>) =
            Some (v\<lparr>requirements := Some (vs @ [e])\<rparr>)"
        by (simp add: snapshot_Some_iff readList_Some_iff)
      with False Some vs ra obj show ?thesis
        by (simp add: agrees_def committed_def applied_def)
    qed
  qed
qed

lemma updateRequirement_agrees:
  assumes rep: "snapshot h w = Some v" and dist: "distinctRefs w"
  shows "rel_sum thrown agrees (applyOperation_refs h w (RUpdateRequirement rid p))
           (applyOperation v (UpdateRequirement rid p))"
proof -
  from rep have rq: "readList getRequirement h (requirement_refs w) = Some (requirements v)"
    and en: "readList getEntity h (entity_refs w) = Some (entities v)"
    and ep: "readList getEndpoint h (endpoint_refs w) = Some (endpoints v)"
    and fo: "folder_structure v = folder_val w" and pa: "passengers v = passenger_vals w"
    by (simp_all add: snapshot_Some_iff)
  show ?thesis
  proof (cases "requirement_refs w")
    case None
    with rq have "requirements v = None" by (simp add: readList_None_iff)
    with None show ?thesis by simp
  next
    case (Some refs)
    with rq obtain vs where vs: "requirements v = Some vs"
      and held: "list_all2 (\<lambda>a x. getRequirement h a = Some x) refs vs"
      by (auto simp: readList_Some_iff)
    then have ra: "readAll getRequirement h refs = Some vs" by (simp add: readAll_iff)
    note fz = find_zip_values [OF held, where P = "\<lambda>x. req_id x = rid"]
    show ?thesis
    proof (cases "find (\<lambda>(a, x). req_id x = rid) (zip refs vs)")
      case None
      with fz have "find (\<lambda>x. req_id x = rid) vs = None" by simp
      with None Some vs ra rep show ?thesis
        by (simp add: agrees_def skipped_def noEffect_def)
    next
      case found: (Some pr)
      obtain a e where pr: "pr = (a, e)" by (cases pr)
      with fz found have fv: "find (\<lambda>x. req_id x = rid) vs = Some e" by simp
      show ?thesis
      proof -
        from held found pr have ha: "getRequirement h a = Some e" by (auto dest: held_member)
        then have al: "a < length h" by (rule get_allocated)
        let ?h' = "h[a := RequirementObj (assignRequirement e p)]"
        from dist Some have d: "distinct refs" by (simp add: distinctRefs_def refList_def)
        have 1: "readList getEntity ?h' (entity_refs w) = Some (entities v)"
          using ha en by (rule write_keeps)
        have 3: "readList getEndpoint ?h' (endpoint_refs w) = Some (endpoints v)"
          using ha ep by (rule write_keeps)
        have 2: "list_all2 (\<lambda>a x. getRequirement ?h' a = Some x) refs
                   (update_first (\<lambda>x. req_id x = rid) (\<lambda>x. assignRequirement x p) vs)"
          using found [unfolded pr] al
          by (intro held_update [where g = "getRequirement h", OF held d])
             (auto simp: get_write get_write_other)
        have "snapshot ?h' w =
              Some (v\<lparr>requirements := Some (update_first (\<lambda>x. req_id x = rid)
                                           (\<lambda>x. assignRequirement x p) vs)\<rparr>)"
          using 1 2 3 fo pa Some by (simp add: snapshot_Some_iff readList_Some_iff)
        with found pr fv Some vs ra show ?thesis
          by (auto simp: agrees_def committed_def applied_def Let_def)
      qed
    qed
  qed
qed

lemma removeRequirement_agrees:
  assumes rep: "snapshot h w = Some v"
  shows "rel_sum thrown agrees (applyOperation_refs h w (RRemoveRequirement rid))
           (applyOperation v (RemoveRequirement rid))"
proof -
  from rep have rq: "readList getRequirement h (requirement_refs w) = Some (requirements v)"
    and en: "readList getEntity h (entity_refs w) = Some (entities v)"
    and ep: "readList getEndpoint h (endpoint_refs w) = Some (endpoints v)"
    and fo: "folder_structure v = folder_val w" and pa: "passengers v = passenger_vals w"
    by (simp_all add: snapshot_Some_iff)
  show ?thesis
  proof (cases "requirement_refs w")
    case None
    with rq have "requirements v = None" by (simp add: readList_None_iff)
    with None show ?thesis by simp
  next
    case (Some refs)
    with rq obtain vs where vs: "requirements v = Some vs"
      and held: "list_all2 (\<lambda>a x. getRequirement h a = Some x) refs vs"
      by (auto simp: readList_Some_iff)
    then have ra: "readAll getRequirement h refs = Some vs" by (simp add: readAll_iff)
    let ?kept = "map fst (filter (\<lambda>(a, x). req_id x \<noteq> rid) (zip refs vs))"
    from held have "list_all2 (\<lambda>a x. getRequirement h a = Some x) ?kept
                      (filter (\<lambda>x. req_id x \<noteq> rid) vs)"
      by (rule held_filter)
    with en ep fo pa
    have s: "snapshot h (w\<lparr>requirement_refs := Some ?kept\<rparr>) =
             Some (v\<lparr>requirements := Some (filter (\<lambda>x. req_id x \<noteq> rid) vs)\<rparr>)"
      by (simp add: snapshot_Some_iff readList_Some_iff)
    from held have "length refs = length vs" by (rule list_all2_lengthD)
    moreover have "length ?kept = length (filter (\<lambda>x. req_id x \<noteq> rid) vs)"
      using kept_length [OF held] by simp
    ultimately have l: "length refs = length ?kept \<longleftrightarrow>
                        length vs = length (filter (\<lambda>x. req_id x \<noteq> rid) vs)"
      by simp
    show ?thesis
    proof (cases "length refs = length ?kept")
      case True
      with l s Some vs ra show ?thesis
        by (simp add: agrees_def skipped_def noEffect_def Let_def)
    next
      case False
      with l s Some vs ra show ?thesis
        by (simp add: agrees_def committed_def applied_def Let_def)
    qed
  qed
qed

lemma addEntity_agrees:
  assumes rep: "snapshot h w = Some v" and obj: "getEntity h a = Some e"
  shows "rel_sum thrown agrees (applyOperation_refs h w (RAddEntity a))
           (applyOperation v (AddEntity e))"
proof -
  from rep have rq: "readList getRequirement h (requirement_refs w) = Some (requirements v)"
    and en: "readList getEntity h (entity_refs w) = Some (entities v)"
    and ep: "readList getEndpoint h (endpoint_refs w) = Some (endpoints v)"
    and fo: "folder_structure v = folder_val w" and pa: "passengers v = passenger_vals w"
    by (simp_all add: snapshot_Some_iff)
  show ?thesis
  proof (cases "entity_refs w")
    case None
    with en have "entities v = None" by (simp add: readList_None_iff)
    with None show ?thesis by simp
  next
    case (Some refs)
    with en obtain vs where vs: "entities v = Some vs"
      and held: "list_all2 (\<lambda>a x. getEntity h a = Some x) refs vs"
      by (auto simp: readList_Some_iff)
    then have ra: "readAll getEntity h refs = Some vs" by (simp add: readAll_iff)
    show ?thesis
    proof (cases "list_ex (\<lambda>x. ent_name x = ent_name e) vs")
      case True
      with Some vs ra obj rep show ?thesis
        by (simp add: agrees_def skipped_def noEffect_def)
    next
      case False
      from held obj have "list_all2 (\<lambda>a x. getEntity h a = Some x) (refs @ [a]) (vs @ [e])"
        by (simp add: list_all2_appendI)
      with rq ep fo pa
      have "snapshot h (w\<lparr>entity_refs := Some (refs @ [a])\<rparr>) =
            Some (v\<lparr>entities := Some (vs @ [e])\<rparr>)"
        by (simp add: snapshot_Some_iff readList_Some_iff)
      with False Some vs ra obj show ?thesis
        by (simp add: agrees_def committed_def applied_def)
    qed
  qed
qed

lemma updateEntity_agrees:
  assumes rep: "snapshot h w = Some v" and dist: "distinctRefs w"
  shows "rel_sum thrown agrees (applyOperation_refs h w (RUpdateEntity eid p))
           (applyOperation v (UpdateEntity eid p))"
proof -
  from rep have rq: "readList getRequirement h (requirement_refs w) = Some (requirements v)"
    and en: "readList getEntity h (entity_refs w) = Some (entities v)"
    and ep: "readList getEndpoint h (endpoint_refs w) = Some (endpoints v)"
    and fo: "folder_structure v = folder_val w" and pa: "passengers v = passenger_vals w"
    by (simp_all add: snapshot_Some_iff)
  show ?thesis
  proof (cases "entity_refs w")
    case None
    with en have "entities v = None" by (simp add: readList_None_iff)
    with None show ?thesis by simp
  next
    case (Some refs)
    with en obtain vs where vs: "entities v = Some vs"
      and held: "list_all2 (\<lambda>a x. getEntity h a = Some x) refs vs"
      by (auto simp: readList_Some_iff)
    then have ra: "readAll getEntity h refs = Some vs" by (simp add: readAll_iff)
    note fz = find_zip_values [OF held, where P = "\<lambda>x. ent_id x = eid"]
    show ?thesis
    proof (cases "find (\<lambda>(a, x). ent_id x = eid) (zip refs vs)")
      case None
      with fz have "find (\<lambda>x. ent_id x = eid) vs = None" by simp
      with None Some vs ra rep show ?thesis
        by (simp add: agrees_def skipped_def noEffect_def)
    next
      case found: (Some pr)
      obtain a e where pr: "pr = (a, e)" by (cases pr)
      with fz found have fv: "find (\<lambda>x. ent_id x = eid) vs = Some e" by simp
      show ?thesis
      proof (cases "truthy (pe_name p) \<and>
          list_ex (\<lambda>other. ent_id other \<noteq> eid \<and> Some (ent_name other) = pe_name p) vs")
        case True
        with found pr fv Some vs ra rep show ?thesis
          by (auto simp: agrees_def skipped_def noEffect_def Let_def)
      next
        case False
        from held found pr have ha: "getEntity h a = Some e" by (auto dest: held_member)
        then have al: "a < length h" by (rule get_allocated)
        let ?h' = "h[a := EntityObj (assignEntity e p)]"
        from dist Some have d: "distinct refs" by (simp add: distinctRefs_def refList_def)
        have 1: "readList getRequirement ?h' (requirement_refs w) = Some (requirements v)"
          using ha rq by (rule write_keeps)
        have 3: "readList getEndpoint ?h' (endpoint_refs w) = Some (endpoints v)"
          using ha ep by (rule write_keeps)
        have 2: "list_all2 (\<lambda>a x. getEntity ?h' a = Some x) refs
                   (update_first (\<lambda>x. ent_id x = eid) (\<lambda>x. assignEntity x p) vs)"
          using found [unfolded pr] al
          by (intro held_update [where g = "getEntity h", OF held d])
             (auto simp: get_write get_write_other)
        have "snapshot ?h' w =
              Some (v\<lparr>entities := Some (update_first (\<lambda>x. ent_id x = eid)
                                           (\<lambda>x. assignEntity x p) vs)\<rparr>)"
          using 1 2 3 fo pa Some by (simp add: snapshot_Some_iff readList_Some_iff)
        with False found pr fv Some vs ra show ?thesis
          by (auto simp: agrees_def committed_def applied_def Let_def)
      qed
    qed
  qed
qed

lemma removeEntity_agrees:
  assumes rep: "snapshot h w = Some v"
  shows "rel_sum thrown agrees (applyOperation_refs h w (RRemoveEntity eid))
           (applyOperation v (RemoveEntity eid))"
proof -
  from rep have rq: "readList getRequirement h (requirement_refs w) = Some (requirements v)"
    and en: "readList getEntity h (entity_refs w) = Some (entities v)"
    and ep: "readList getEndpoint h (endpoint_refs w) = Some (endpoints v)"
    and fo: "folder_structure v = folder_val w" and pa: "passengers v = passenger_vals w"
    by (simp_all add: snapshot_Some_iff)
  show ?thesis
  proof (cases "entity_refs w")
    case None
    with en have "entities v = None" by (simp add: readList_None_iff)
    with None show ?thesis by simp
  next
    case (Some refs)
    with en obtain vs where vs: "entities v = Some vs"
      and held: "list_all2 (\<lambda>a x. getEntity h a = Some x) refs vs"
      by (auto simp: readList_Some_iff)
    then have ra: "readAll getEntity h refs = Some vs" by (simp add: readAll_iff)
    note fz = find_zip_values [OF held, where P = "\<lambda>x. ent_id x = eid"]
    show ?thesis
    proof (cases "find (\<lambda>(a, x). ent_id x = eid) (zip refs vs)")
      case None
      with fz have "find (\<lambda>x. ent_id x = eid) vs = None" by simp
      with None Some vs ra rep show ?thesis
        by (simp add: agrees_def skipped_def noEffect_def)
    next
      case found: (Some pr)
      obtain a e where pr: "pr = (a, e)" by (cases pr)
      with fz found have fv: "find (\<lambda>x. ent_id x = eid) vs = Some e" by simp
      let ?kept = "map fst (filter (\<lambda>(a, x). ent_id x \<noteq> eid) (zip refs vs))"
      from held have "list_all2 (\<lambda>a x. getEntity h a = Some x) ?kept
                        (filter (\<lambda>x. ent_id x \<noteq> eid) vs)"
        by (rule held_filter)
      with rq ep fo pa
      have "snapshot h (w\<lparr>entity_refs := Some ?kept\<rparr>) =
            Some (v\<lparr>entities := Some (filter (\<lambda>x. ent_id x \<noteq> eid) vs)\<rparr>)"
        by (simp add: snapshot_Some_iff readList_Some_iff)
      with found pr fv Some vs ra show ?thesis
        by (simp add: agrees_def committed_def applied_def)
    qed
  qed
qed

lemma addEndpoint_agrees:
  assumes rep: "snapshot h w = Some v" and obj: "getEndpoint h a = Some e"
  shows "rel_sum thrown agrees (applyOperation_refs h w (RAddEndpoint a))
           (applyOperation v (AddEndpoint e))"
proof -
  from rep have rq: "readList getRequirement h (requirement_refs w) = Some (requirements v)"
    and en: "readList getEntity h (entity_refs w) = Some (entities v)"
    and ep: "readList getEndpoint h (endpoint_refs w) = Some (endpoints v)"
    and fo: "folder_structure v = folder_val w" and pa: "passengers v = passenger_vals w"
    by (simp_all add: snapshot_Some_iff)
  show ?thesis
  proof (cases "endpoint_refs w")
    case None
    with ep have "endpoints v = None" by (simp add: readList_None_iff)
    with None show ?thesis by simp
  next
    case (Some refs)
    with ep obtain vs where vs: "endpoints v = Some vs"
      and held: "list_all2 (\<lambda>a x. getEndpoint h a = Some x) refs vs"
      by (auto simp: readList_Some_iff)
    then have ra: "readAll getEndpoint h refs = Some vs" by (simp add: readAll_iff)
    show ?thesis
    proof (cases "list_ex (\<lambda>x. ep_path x = ep_path e \<and> ep_method x = ep_method e) vs")
      case True
      with Some vs ra obj rep show ?thesis
        by (simp add: agrees_def skipped_def noEffect_def)
    next
      case False
      from held obj have "list_all2 (\<lambda>a x. getEndpoint h a = Some x) (refs @ [a]) (vs @ [e])"
        by (simp add: list_all2_appendI)
      with rq en fo pa
      have "snapshot h (w\<lparr>endpoint_refs := Some (refs @ [a])\<rparr>) =
            Some (v\<lparr>endpoints := Some (vs @ [e])\<rparr>)"
        by (simp add: snapshot_Some_iff readList_Some_iff)
      with False Some vs ra obj show ?thesis
        by (simp add: agrees_def committed_def applied_def)
    qed
  qed
qed

lemma updateEndpoint_agrees:
  assumes rep: "snapshot h w = Some v" and dist: "distinctRefs w"
  shows "rel_sum thrown agrees (applyOperation_refs h w (RUpdateEndpoint eid p))
           (applyOperation v (UpdateEndpoint eid p))"
proof -
  from rep have rq: "readList getRequirement h (requirement_refs w) = Some (requirements v)"
    and en: "readList getEntity h (entity_refs w) = Some (entities v)"
    and ep: "readList getEndpoint h (endpoint_refs w) = Some (endpoints v)"
    and fo: "folder_structure v = folder_val w" and pa: "passengers v = passenger_vals w"
    by (simp_all add: snapshot_Some_iff)
  show ?thesis
  proof (cases "endpoint_refs w")
    case None
    with ep have "endpoints v = None" by (simp add: readList_None_iff)
    with None show ?thesis by simp
  next
    case (Some refs)
    with ep obtain vs where vs: "endpoints v = Some vs"
      and held: "list_all2 (\<lambda>a x. getEndpoint h a = Some x) refs vs"
      by (auto simp: readList_Some_iff)
    then have ra: "readAll getEndpoint h refs = Some vs" by (simp add: readAll_iff)
    note fz = find_zip_values [OF held, where P = "\<lambda>x. ep_id x = eid"]
    show ?thesis
    proof (cases "find (\<lambda>(a, x). ep_id x = eid) (zip refs vs)")
      case None
      with fz have "find (\<lambda>x. ep_id x = eid) vs = None" by simp
      with None Some vs ra rep show ?thesis
        by (simp add: agrees_def skipped_def noEffect_def)
    next
      case found: (Some pr)
      obtain a e where pr: "pr = (a, e)" by (cases pr)
      with fz found have fv: "find (\<lambda>x. ep_id x = eid) vs = Some e" by simp
      show ?thesis
      proof (cases "(truthy (pp_path p) \<or> pp_method p \<noteq> None) \<and>
          list_ex (\<lambda>other. ep_id other \<noteq> eid \<and>
                     ep_path other = (case pp_path p of None \<Rightarrow> ep_path e | Some v \<Rightarrow> v) \<and>
                     ep_method other = (case pp_method p of None \<Rightarrow> ep_method e | Some v \<Rightarrow> v)) vs")
        case True
        with found pr fv Some vs ra rep show ?thesis
          by (auto simp: agrees_def skipped_def noEffect_def Let_def)
      next
        case False
        from held found pr have ha: "getEndpoint h a = Some e" by (auto dest: held_member)
        then have al: "a < length h" by (rule get_allocated)
        let ?h' = "h[a := EndpointObj (assignEndpoint e p)]"
        from dist Some have d: "distinct refs" by (simp add: distinctRefs_def refList_def)
        have 1: "readList getRequirement ?h' (requirement_refs w) = Some (requirements v)"
          using ha rq by (rule write_keeps)
        have 3: "readList getEntity ?h' (entity_refs w) = Some (entities v)"
          using ha en by (rule write_keeps)
        have 2: "list_all2 (\<lambda>a x. getEndpoint ?h' a = Some x) refs
                   (update_first (\<lambda>x. ep_id x = eid) (\<lambda>x. assignEndpoint x p) vs)"
          using found [unfolded pr] al
          by (intro held_update [where g = "getEndpoint h", OF held d])
             (auto simp: get_write get_write_other)
        have "snapshot ?h' w =
              Some (v\<lparr>endpoints := Some (update_first (\<lambda>x. ep_id x = eid)
                                           (\<lambda>x. assignEndpoint x p) vs)\<rparr>)"
          using 1 2 3 fo pa Some by (simp add: snapshot_Some_iff readList_Some_iff)
        with False found pr fv Some vs ra show ?thesis
          by (auto simp: agrees_def committed_def applied_def Let_def)
      qed
    qed
  qed
qed

lemma removeEndpoint_agrees:
  assumes rep: "snapshot h w = Some v"
  shows "rel_sum thrown agrees (applyOperation_refs h w (RRemoveEndpoint eid))
           (applyOperation v (RemoveEndpoint eid))"
proof -
  from rep have rq: "readList getRequirement h (requirement_refs w) = Some (requirements v)"
    and en: "readList getEntity h (entity_refs w) = Some (entities v)"
    and ep: "readList getEndpoint h (endpoint_refs w) = Some (endpoints v)"
    and fo: "folder_structure v = folder_val w" and pa: "passengers v = passenger_vals w"
    by (simp_all add: snapshot_Some_iff)
  show ?thesis
  proof (cases "endpoint_refs w")
    case None
    with ep have "endpoints v = None" by (simp add: readList_None_iff)
    with None show ?thesis by simp
  next
    case (Some refs)
    with ep obtain vs where vs: "endpoints v = Some vs"
      and held: "list_all2 (\<lambda>a x. getEndpoint h a = Some x) refs vs"
      by (auto simp: readList_Some_iff)
    then have ra: "readAll getEndpoint h refs = Some vs" by (simp add: readAll_iff)
    note fz = find_zip_values [OF held, where P = "\<lambda>x. ep_id x = eid"]
    show ?thesis
    proof (cases "find (\<lambda>(a, x). ep_id x = eid) (zip refs vs)")
      case None
      with fz have "find (\<lambda>x. ep_id x = eid) vs = None" by simp
      with None Some vs ra rep show ?thesis
        by (simp add: agrees_def skipped_def noEffect_def)
    next
      case found: (Some pr)
      obtain a e where pr: "pr = (a, e)" by (cases pr)
      with fz found have fv: "find (\<lambda>x. ep_id x = eid) vs = Some e" by simp
      let ?kept = "map fst (filter (\<lambda>(a, x). ep_id x \<noteq> eid) (zip refs vs))"
      from held have "list_all2 (\<lambda>a x. getEndpoint h a = Some x) ?kept
                        (filter (\<lambda>x. ep_id x \<noteq> eid) vs)"
        by (rule held_filter)
      with rq en fo pa
      have "snapshot h (w\<lparr>endpoint_refs := Some ?kept\<rparr>) =
            Some (v\<lparr>endpoints := Some (filter (\<lambda>x. ep_id x \<noteq> eid) vs)\<rparr>)"
        by (simp add: snapshot_Some_iff readList_Some_iff)
      with found pr fv Some vs ra show ?thesis
        by (simp add: agrees_def committed_def applied_def)
    qed
  qed
qed

lemma applyOperation_refs_agrees:
  assumes rep: "snapshot h w = Some v" and dist: "distinctRefs w"
    and vop: "valueOp h operation = Some vop"
  shows "rel_sum thrown agrees (applyOperation_refs h w operation) (applyOperation v vop)"
proof (cases operation)
  case (RAddRequirement a)
  with vop obtain e where e: "getRequirement h a = Some e" "vop = AddRequirement e" by auto
  show ?thesis unfolding RAddRequirement e(2) using rep e(1) by (rule addRequirement_agrees)
next
  case (RUpdateRequirement rid p)
  with vop have e: "vop = UpdateRequirement rid p" by simp
  show ?thesis unfolding RUpdateRequirement e using rep dist by (rule updateRequirement_agrees)
next
  case (RRemoveRequirement rid)
  with vop have e: "vop = RemoveRequirement rid" by simp
  show ?thesis unfolding RRemoveRequirement e using rep by (rule removeRequirement_agrees)
next
  case (RAddEntity a)
  with vop obtain e where e: "getEntity h a = Some e" "vop = AddEntity e" by auto
  show ?thesis unfolding RAddEntity e(2) using rep e(1) by (rule addEntity_agrees)
next
  case (RUpdateEntity eid p)
  with vop have e: "vop = UpdateEntity eid p" by simp
  show ?thesis unfolding RUpdateEntity e using rep dist by (rule updateEntity_agrees)
next
  case (RRemoveEntity eid)
  with vop have e: "vop = RemoveEntity eid" by simp
  show ?thesis unfolding RRemoveEntity e using rep by (rule removeEntity_agrees)
next
  case (RAddEndpoint a)
  with vop obtain e where e: "getEndpoint h a = Some e" "vop = AddEndpoint e" by auto
  show ?thesis unfolding RAddEndpoint e(2) using rep e(1) by (rule addEndpoint_agrees)
next
  case (RUpdateEndpoint eid p)
  with vop have e: "vop = UpdateEndpoint eid p" by simp
  show ?thesis unfolding RUpdateEndpoint e using rep dist by (rule updateEndpoint_agrees)
next
  case (RRemoveEndpoint eid)
  with vop have e: "vop = RemoveEndpoint eid" by simp
  show ?thesis unfolding RRemoveEndpoint e using rep by (rule removeEndpoint_agrees)
next
  case (RUpdateFolderStructure f)
  from rep have "snapshot h (w\<lparr>folder_val := f\<rparr>) = Some (v\<lparr>folder_structure := f\<rparr>)"
    by (simp add: snapshot_Some_iff)
  with RUpdateFolderStructure vop show ?thesis
    by (auto simp: agrees_def committed_def applied_def)
next
  case (RUnsupported t)
  with vop rep show ?thesis by (auto simp: agrees_def skipped_def noEffect_def)
qed

lemma refList_Some [simp]: "refList (Some as) = as"
  by (simp add: refList_def)

lemma distinctRefs_update [simp]:
  "distinctRefs (w\<lparr>requirement_refs := x\<rparr>) \<longleftrightarrow>
     distinct (refList x) \<and> distinct (refList (entity_refs w)) \<and>
     distinct (refList (endpoint_refs w))"
  "distinctRefs (w\<lparr>entity_refs := x\<rparr>) \<longleftrightarrow>
     distinct (refList (requirement_refs w)) \<and> distinct (refList x) \<and>
     distinct (refList (endpoint_refs w))"
  "distinctRefs (w\<lparr>endpoint_refs := x\<rparr>) \<longleftrightarrow>
     distinct (refList (requirement_refs w)) \<and> distinct (refList (entity_refs w)) \<and>
     distinct (refList x)"
  "distinctRefs (w\<lparr>folder_val := f\<rparr>) \<longleftrightarrow> distinctRefs w"
  by (simp_all add: distinctRefs_def)

lemma addedRef_addedAddr: "addedRef operation = set (addedAddr operation)"
  by (cases operation) simp_all

lemma applyOperation_refs_distinct:
  assumes run: "applyOperation_refs h w operation = Inr r"
    and dist: "distinctRefs w"
    and fresh: "set (addedAddr operation) \<inter> specRefs w = {}"
  shows "distinctRefs (sr_spec r)"
proof -
  from dist have d: "distinct (refList (requirement_refs w))"
    "distinct (refList (entity_refs w))" "distinct (refList (endpoint_refs w))"
    by (simp_all add: distinctRefs_def)
  show ?thesis
  proof (cases operation)
    case (RAddRequirement a)
    with fresh have "a \<notin> refsOf (requirement_refs w)" by (simp add: specRefs_def)
    with run RAddRequirement d dist show ?thesis
      by (auto simp: skipped_def committed_def split: option.splits if_splits)
  next
    case (RAddEntity a)
    with fresh have "a \<notin> refsOf (entity_refs w)" by (simp add: specRefs_def)
    with run RAddEntity d dist show ?thesis
      by (auto simp: skipped_def committed_def split: option.splits if_splits)
  next
    case (RAddEndpoint a)
    with fresh have "a \<notin> refsOf (endpoint_refs w)" by (simp add: specRefs_def)
    with run RAddEndpoint d dist show ?thesis
      by (auto simp: skipped_def committed_def split: option.splits if_splits)
  next
    case (RRemoveRequirement rid)
    with run d dist show ?thesis
      by (auto simp: skipped_def committed_def Let_def kept_distinct
               split: option.splits if_splits)
  next
    case (RRemoveEntity eid)
    with run d dist show ?thesis
      by (auto simp: skipped_def committed_def kept_distinct split: option.splits if_splits)
  next
    case (RRemoveEndpoint eid)
    with run d dist show ?thesis
      by (auto simp: skipped_def committed_def kept_distinct split: option.splits if_splits)
  next
    case (RUpdateRequirement rid p)
    with run dist show ?thesis
      by (auto simp: skipped_def committed_def split: option.splits if_splits)
  next
    case (RUpdateEntity eid p)
    with run dist show ?thesis
      by (auto simp: skipped_def committed_def Let_def split: option.splits if_splits)
  next
    case (RUpdateEndpoint eid p)
    with run dist show ?thesis
      by (auto simp: skipped_def committed_def Let_def split: option.splits if_splits)
  next
    case (RUpdateFolderStructure f)
    with run dist show ?thesis by (auto simp: committed_def)
  next
    case (RUnsupported t)
    with run dist show ?thesis by (auto simp: skipped_def)
  qed
qed

lemma getters_bind:
  "getRequirement = (\<lambda>h a. Option.bind (readObj h a)
      (\<lambda>x. case x of RequirementObj r \<Rightarrow> Some r | _ \<Rightarrow> None))"
  "getEntity = (\<lambda>h a. Option.bind (readObj h a)
      (\<lambda>x. case x of EntityObj e \<Rightarrow> Some e | _ \<Rightarrow> None))"
  "getEndpoint = (\<lambda>h a. Option.bind (readObj h a)
      (\<lambda>x. case x of EndpointObj e \<Rightarrow> Some e | _ \<Rightarrow> None))"
  by (auto simp: getRequirement_def getEntity_def getEndpoint_def fun_eq_iff
           split: option.splits obj.splits)

lemma readObj_append:
  "readObj h a = Some x \<Longrightarrow> readObj (h @ ext) a = Some x"
  by (auto simp: readObj_def nth_append split: if_splits)

lemma held_append:
  "list_all2 (\<lambda>a v. Option.bind (readObj h a) proj = Some v) as vs \<Longrightarrow>
   list_all2 (\<lambda>a v. Option.bind (readObj (h @ ext) a) proj = Some v) as vs"
proof (erule list_all2_mono)
  fix a v
  assume "Option.bind (readObj h a) proj = Some v"
  then obtain x where "readObj h a = Some x" "proj x = Some v"
    by (auto simp: bind_eq_Some_conv)
  with readObj_append [of h a x ext]
  show "Option.bind (readObj (h @ ext) a) proj = Some v" by simp
qed

lemma cloneObjs_held:
  "list_all2 (\<lambda>a v. Option.bind (readObj h a) proj = Some v) as vs \<Longrightarrow>
   \<exists>h' as'. cloneObjs h as = Some (h', as') \<and>
     list_all2 (\<lambda>a v. Option.bind (readObj h' a) proj = Some v) as' vs \<and>
     distinct as' \<and> (\<forall>a\<in>set as'. length h \<le> a \<and> a < length h') \<and>
     (\<exists>ext. h' = h @ ext)"
proof (induction as arbitrary: h vs)
  case Nil
  then show ?case by simp
next
  case (Cons a as)
  from Cons.prems obtain v vs' where vs: "vs = v # vs'"
    and hd: "Option.bind (readObj h a) proj = Some v"
    and tl: "list_all2 (\<lambda>a v. Option.bind (readObj h a) proj = Some v) as vs'"
    by (auto simp: list_all2_Cons1)
  from hd obtain x where x: "readObj h a = Some x" "proj x = Some v"
    by (auto simp: bind_eq_Some_conv)
  from held_append [OF tl, of "[x]"] Cons.IH [of "h @ [x]" vs']
  obtain h' as' where c: "cloneObjs (h @ [x]) as = Some (h', as')"
    and held: "list_all2 (\<lambda>a v. Option.bind (readObj h' a) proj = Some v) as' vs'"
    and d: "distinct as'" and b: "\<forall>a\<in>set as'. length (h @ [x]) \<le> a \<and> a < length h'"
    and e: "\<exists>ext. h' = (h @ [x]) @ ext"
    by blast
  from e obtain ext where ext: "h' = h @ x # ext" by auto
  then have "readObj h' (length h) = Some x" by (simp add: readObj_def)
  with x have here: "Option.bind (readObj h' (length h)) proj = Some v" by simp
  from b have "length h \<notin> set as'" by auto
  with x c held d b ext here vs show ?case by (auto simp: ext)
qed

lemma cloneList_held:
  assumes "readList (\<lambda>h a. Option.bind (readObj h a) proj) h refs = Some vals"
  shows "\<exists>h' refs'. cloneList h refs = Some (h', refs') \<and>
     readList (\<lambda>h a. Option.bind (readObj h a) proj) h' refs' = Some vals \<and>
     distinct (refList refs') \<and> (\<forall>a\<in>refsOf refs'. length h \<le> a) \<and>
     (\<exists>ext. h' = h @ ext)"
proof (cases refs)
  case None
  with assms show ?thesis
    by (simp add: cloneList_def readList_def refList_def refsOf_def)
next
  case (Some as)
  with assms obtain vs where vs: "vals = Some vs"
    and held: "list_all2 (\<lambda>a v. Option.bind (readObj h a) proj = Some v) as vs"
    by (auto simp: readList_Some_iff)
  from cloneObjs_held [OF held] obtain h' as' where
    "cloneObjs h as = Some (h', as')"
    "list_all2 (\<lambda>a v. Option.bind (readObj h' a) proj = Some v) as' vs"
    "distinct as'" "\<forall>a\<in>set as'. length h \<le> a \<and> a < length h'" "\<exists>ext. h' = h @ ext"
    by blast
  with Some vs show ?thesis
    by (auto simp: cloneList_def readList_Some_iff)
qed

lemma readList_append:
  assumes "readList (\<lambda>h a. Option.bind (readObj h a) proj) h refs = Some vals"
  shows "readList (\<lambda>h a. Option.bind (readObj h a) proj) (h @ ext) refs = Some vals"
proof (cases refs)
  case None
  with assms show ?thesis by (simp add: readList_def)
next
  case (Some as)
  with assms held_append [of h proj as _ ext] show ?thesis
    by (auto simp: readList_Some_iff)
qed

lemma cloneSpec_snapshot:
  assumes "snapshot h s = Some v"
  shows "\<exists>h' w. cloneSpec h s = Some (h', w) \<and> snapshot h' w = Some v \<and> distinctRefs w \<and>
           (\<forall>a\<in>specRefs w. length h \<le> a) \<and> (\<exists>ext. h' = h @ ext)"
proof -
  from assms have rq: "readList getRequirement h (requirement_refs s) = Some (requirements v)"
    and en: "readList getEntity h (entity_refs s) = Some (entities v)"
    and ep: "readList getEndpoint h (endpoint_refs s) = Some (endpoints v)"
    and fo: "folder_structure v = folder_val s" and pa: "passengers v = passenger_vals s"
    by (simp_all add: snapshot_Some_iff)
  from cloneList_held [OF rq [unfolded getters_bind]] obtain h1 rs e1 where
    c1: "cloneList h (requirement_refs s) = Some (h1, rs)"
    and r1: "readList getRequirement h1 rs = Some (requirements v)"
    and d1: "distinct (refList rs)" and b1: "\<forall>a\<in>refsOf rs. length h \<le> a"
    and x1: "h1 = h @ e1"
    unfolding getters_bind by blast
  from readList_append [OF en [unfolded getters_bind], of e1] x1
  have "readList (\<lambda>h a. Option.bind (readObj h a)
          (\<lambda>x. case x of EntityObj e \<Rightarrow> Some e | _ \<Rightarrow> None)) h1 (entity_refs s) =
        Some (entities v)" by simp
  from cloneList_held [OF this] obtain h2 es e2 where
    c2: "cloneList h1 (entity_refs s) = Some (h2, es)"
    and r2: "readList getEntity h2 es = Some (entities v)"
    and d2: "distinct (refList es)" and b2: "\<forall>a\<in>refsOf es. length h1 \<le> a"
    and x2: "h2 = h1 @ e2"
    unfolding getters_bind by blast
  from readList_append [OF ep [unfolded getters_bind], of "e1 @ e2"] x1 x2
  have "readList (\<lambda>h a. Option.bind (readObj h a)
          (\<lambda>x. case x of EndpointObj e \<Rightarrow> Some e | _ \<Rightarrow> None)) h2 (endpoint_refs s) =
        Some (endpoints v)" by simp
  from cloneList_held [OF this] obtain h3 eps e3 where
    c3: "cloneList h2 (endpoint_refs s) = Some (h3, eps)"
    and r3: "readList getEndpoint h3 eps = Some (endpoints v)"
    and d3: "distinct (refList eps)" and b3: "\<forall>a\<in>refsOf eps. length h2 \<le> a"
    and x3: "h3 = h2 @ e3"
    unfolding getters_bind by blast
  from readList_append [OF r1 [unfolded getters_bind], of "e2 @ e3"] x2 x3
  have r1': "readList getRequirement h3 rs = Some (requirements v)"
    unfolding getters_bind by simp
  from readList_append [OF r2 [unfolded getters_bind], of e3] x3
  have r2': "readList getEntity h3 es = Some (entities v)"
    unfolding getters_bind by simp
  let ?w = "s\<lparr>requirement_refs := rs, entity_refs := es, endpoint_refs := eps\<rparr>"
  have "cloneSpec h s = Some (h3, ?w)" using c1 c2 c3 by (simp add: cloneSpec_def)
  moreover have "snapshot h3 ?w = Some v"
    using r1' r2' r3 fo pa by (simp add: snapshot_Some_iff)
  moreover have "distinctRefs ?w" using d1 d2 d3 by (simp add: distinctRefs_def)
  moreover have "\<forall>a\<in>specRefs ?w. length h \<le> a"
    using b1 b2 b3 x1 x2 by (auto simp: specRefs_def)
  moreover have "\<exists>ext. h3 = h @ ext" using x1 x2 x3 by simp
  ultimately show ?thesis by blast
qed

lemma valueOp_frame:
  assumes "valueOp h operation = Some vop"
    and "\<And>a. a \<in> set (addedAddr operation) \<Longrightarrow> readObj h' a = readObj h a"
  shows "valueOp h' operation = Some vop"
  using assms
  by (cases operation) (auto simp: getRequirement_def getEntity_def getEndpoint_def)

lemma valueOp_allocated:
  "valueOp h operation = Some vop \<Longrightarrow> a \<in> set (addedAddr operation) \<Longrightarrow> a < length h"
  by (cases operation) (auto dest: get_allocated)

lemma those_map_defined:
  "those (map f xs) = Some ys \<Longrightarrow> x \<in> set xs \<Longrightarrow> f x \<noteq> None"
  by (induction xs arbitrary: ys) (auto split: option.splits)

lemma those_map_cong:
  "(\<And>x. x \<in> set xs \<Longrightarrow> f x = g x) \<Longrightarrow> those (map f xs) = those (map g xs)"
  by (rule arg_cong [where f = those]) simp

lemma applyOperations_refs_agrees:
  "agrees st vst \<Longrightarrow> distinctRefs (sr_spec st) \<Longrightarrow>
   those (map (valueOp (sr_heap st)) ops) = Some vops \<Longrightarrow>
   distinct (concat (map addedAddr ops)) \<Longrightarrow>
   set (concat (map addedAddr ops)) \<inter> specRefs (sr_spec st) = {} \<Longrightarrow>
   rel_sum thrown agrees (applyOperations_refs st ops) (applyOperations vst vops)"
proof (induction ops arbitrary: st vst vops)
  case Nil
  then show ?case by simp
next
  case (Cons operation rest)
  let ?h = "sr_heap st" and ?w = "sr_spec st"
  from Cons.prems(3) obtain vop vrest where vops: "vops = vop # vrest"
    and vop: "valueOp ?h operation = Some vop"
    and vrest: "those (map (valueOp ?h) rest) = Some vrest"
    by (auto split: option.splits)
  from Cons.prems(1) have rep: "snapshot ?h ?w = Some (res_spec vst)"
    and cf: "sr_conflicts st = conflicts vst" and im: "sr_impacts st = impacts vst"
    by (simp_all add: agrees_def)
  from Cons.prems(4) have d: "distinct (addedAddr operation)"
    "distinct (concat (map addedAddr rest))"
    "set (addedAddr operation) \<inter> set (concat (map addedAddr rest)) = {}"
    by auto
  from Cons.prems(5) have fr: "set (addedAddr operation) \<inter> specRefs ?w = {}"
    "set (concat (map addedAddr rest)) \<inter> specRefs ?w = {}"
    by auto
  note sim = applyOperation_refs_agrees [OF rep Cons.prems(2) vop]
  show ?case
  proof (cases "applyOperation_refs ?h ?w operation")
    case (Inl x)
    with sim have "applyOperation (res_spec vst) vop = Inl (fst x)"
      by (cases "applyOperation (res_spec vst) vop") auto
    with Inl vops show ?thesis by simp
  next
    case (Inr r)
    with sim obtain vr where vr: "applyOperation (res_spec vst) vop = Inr vr"
      and ag: "agrees r vr"
      by (cases "applyOperation (res_spec vst) vop") auto
    let ?st1 = "\<lparr> sr_heap = sr_heap r, sr_spec = sr_spec r,
                  sr_conflicts = sr_conflicts st @ sr_conflicts r,
                  sr_impacts = sr_impacts st @ sr_impacts r \<rparr>"
    let ?vst1 = "\<lparr> res_spec = res_spec vr, conflicts = conflicts vst @ conflicts vr,
                   impacts = impacts vst @ impacts vr \<rparr>"
    from ag cf im have a1: "agrees ?st1 ?vst1" by (simp add: agrees_def)
    from applyOperation_refs_distinct [OF Inr Cons.prems(2) fr(1)]
    have d1: "distinctRefs (sr_spec ?st1)" by simp
    let ?W = "specRefs ?w \<union> addedRef operation"
    from applyOperation_refs_frame [OF Inr, of ?W]
    have sub: "specRefs (sr_spec r) \<subseteq> ?W" and len: "length (sr_heap r) = length ?h"
      and same: "\<forall>a. a \<notin> ?W \<longrightarrow> sr_heap r ! a = ?h ! a"
      by auto
    have keep: "readObj (sr_heap r) a = readObj ?h a"
      if "a \<in> set (concat (map addedAddr rest))" for a
    proof -
      from that fr(2) d(3) have "a \<notin> ?W" by (auto simp: addedRef_addedAddr)
      with same len show ?thesis by (simp add: readObj_def)
    qed
    have "those (map (valueOp (sr_heap r)) rest) = those (map (valueOp ?h) rest)"
    proof (rule those_map_cong)
      fix x
      assume x: "x \<in> set rest"
      show "valueOp (sr_heap r) x = valueOp ?h x"
      proof (cases "valueOp ?h x")
        case None
        with those_map_defined [OF vrest x] show ?thesis by simp
      next
        case (Some y)
        from valueOp_frame [OF Some, of "sr_heap r"] keep x Some show ?thesis by auto
      qed
    qed
    with vrest have v1: "those (map (valueOp (sr_heap ?st1)) rest) = Some vrest" by simp
    from sub fr(2) d(3)
    have f1: "set (concat (map addedAddr rest)) \<inter> specRefs (sr_spec ?st1) = {}"
      by (auto simp: addedRef_addedAddr)
    from Cons.IH [OF a1 d1 v1 d(2) f1] Inr vr vops show ?thesis by simp
  qed
qed

text \<open>
  On a request whose add operations hand over pairwise different objects, the applier on the
  store and the applier on values fail alike or return results that agree: the value of the
  proposed spec in the store left behind is the proposed spec of the value model, with the
  same conflicts and impacts. (Sharing between the request and \<open>currentSpec\<close> does not matter
  here: the working spec starts from copies.)
\<close>

lemma applyChangeRequestToSpec_refs_agrees:
  assumes snap: "snapshot h currentSpec = Some s"
    and vops: "those (map (valueOp h) ops) = Some vops"
    and dist: "distinct (concat (map addedAddr ops))"
  shows "rel_sum thrown agrees
           (applyChangeRequestToSpec_refs h currentSpec
              \<lparr> rr_summary = t, rr_operations = Some ops \<rparr>)
           (applyChangeRequestToSpec s \<lparr> summary = t, operations = Some vops \<rparr>)"
proof -
  from cloneSpec_snapshot [OF snap] obtain h1 w ext where
    c: "cloneSpec h currentSpec = Some (h1, w)" and s1: "snapshot h1 w = Some s"
    and d1: "distinctRefs w" and fresh: "\<forall>a\<in>specRefs w. length h \<le> a"
    and ext: "h1 = h @ ext"
    by blast
  let ?st = "\<lparr> sr_heap = h1, sr_spec = w, sr_conflicts = [], sr_impacts = [] \<rparr>"
  let ?vst = "\<lparr> res_spec = jsonClone s, conflicts = [], impacts = [] \<rparr>"
  have old: "a < length h" if "a \<in> set (concat (map addedAddr ops))" for a
  proof -
    from that obtain x where x: "x \<in> set ops" "a \<in> set (addedAddr x)" by auto
    from those_map_defined [OF vops x(1)] obtain y where "valueOp h x = Some y" by auto
    from valueOp_allocated [OF this x(2)] show ?thesis .
  qed
  have "those (map (valueOp h1) ops) = those (map (valueOp h) ops)"
  proof (rule those_map_cong)
    fix x
    assume x: "x \<in> set ops"
    from those_map_defined [OF vops x] obtain y where y: "valueOp h x = Some y" by auto
    have "valueOp h1 x = Some y"
    proof (rule valueOp_frame [OF y])
      fix a
      assume "a \<in> set (addedAddr x)"
      with x old have "a < length h" by auto
      then show "readObj h1 a = readObj h a" by (simp add: ext readObj_def nth_append)
    qed
    with y show "valueOp h1 x = valueOp h x" by simp
  qed
  with vops have v1: "those (map (valueOp (sr_heap ?st)) ops) = Some vops" by simp
  from s1 have a0: "agrees ?st ?vst" by (simp add: agrees_def jsonClone_def)
  from d1 have d0: "distinctRefs (sr_spec ?st)" by simp
  from old fresh have f0: "set (concat (map addedAddr ops)) \<inter> specRefs (sr_spec ?st) = {}"
    by fastforce
  note loop = applyOperations_refs_agrees [OF a0 d0 v1 dist f0]
  show ?thesis
  proof (cases "applyOperations_refs ?st ops")
    case (Inl x)
    with loop have "applyOperations ?vst vops = Inl (fst x)"
      by (cases "applyOperations ?vst vops") auto
    with Inl c show ?thesis
      by (simp add: applyChangeRequestToSpec_refs_def applyChangeRequestToSpec_def)
  next
    case (Inr st)
    with loop obtain vst where vst: "applyOperations ?vst vops = Inr vst"
      and ag: "agrees st vst"
      by (cases "applyOperations ?vst vops") auto
    from ag have sn: "snapshot (sr_heap st) (sr_spec st) = Some (res_spec vst)"
      by (simp add: agrees_def)
    show ?thesis
    proof (cases "validateSpec (res_spec vst)")
      case (Inl err)
      with Inr vst c sn show ?thesis
        by (simp add: applyChangeRequestToSpec_refs_def applyChangeRequestToSpec_def)
    next
      case found: (Inr findings)
      with Inr vst c sn ag show ?thesis
        by (simp add: applyChangeRequestToSpec_refs_def applyChangeRequestToSpec_def
            agrees_def)
    qed
  qed
qed

lemma valueOp_parseOperation:
  "parseOperation h operation = (h', r) \<Longrightarrow>
   valueOp h' r = Some operation \<and> set (addedAddr r) \<subseteq> {length h ..< length h'}"
  by (cases operation)
     (auto simp: getRequirement_def getEntity_def getEndpoint_def readObj_def)

lemma valueOp_parseOperations:
  "parseOperations h ops = (h', rs) \<Longrightarrow>
   those (map (valueOp h') rs) = Some ops \<and> distinct (concat (map addedAddr rs)) \<and>
   set (concat (map addedAddr rs)) \<subseteq> {length h ..< length h'}"
proof (induction ops arbitrary: h h' rs)
  case Nil
  then show ?case by simp
next
  case (Cons operation rest)
  from Cons.prems obtain h1 r rest' where
    p1: "parseOperation h operation = (h1, r)"
    and p2: "parseOperations h1 rest = (h', rest')" and rs: "rs = r # rest'"
    by (auto split: prod.splits)
  from valueOp_parseOperation [OF p1] have v1: "valueOp h1 r = Some operation"
    and a1: "set (addedAddr r) \<subseteq> {length h ..< length h1}" by auto
  from Cons.IH [OF p2] have v2: "those (map (valueOp h') rest') = Some rest"
    and d2: "distinct (concat (map addedAddr rest'))"
    and a2: "set (concat (map addedAddr rest')) \<subseteq> {length h1 ..< length h'}" by auto
  from parseOperations_extends [OF p2] obtain ext where ext: "h' = h1 @ ext" by blast
  from parseOperation_extends [OF p1] obtain e1 where e1: "h1 = h @ e1" by blast
  have "valueOp h' r = Some operation"
  proof (rule valueOp_frame [OF v1])
    fix a assume "a \<in> set (addedAddr r)"
    with a1 have "a < length h1" by auto
    then show "readObj h' a = readObj h1 a" by (simp add: ext readObj_def nth_append)
  qed
  moreover have "distinct (addedAddr r)" by (cases r) auto
  ultimately show ?case
    using v2 d2 a1 a2 rs ext e1 by (fastforce)
qed

lemma snapshot_append:
  assumes "snapshot h s = Some v"
  shows "snapshot (h @ ext) s = Some v"
proof -
  from assms have rq: "readList getRequirement h (requirement_refs s) = Some (requirements v)"
    and en: "readList getEntity h (entity_refs s) = Some (entities v)"
    and ep: "readList getEndpoint h (endpoint_refs s) = Some (endpoints v)"
    and fo: "folder_structure v = folder_val s" and pa: "passengers v = passenger_vals s"
    by (simp_all add: snapshot_Some_iff)
  from readList_append [OF rq [unfolded getters_bind], of ext]
  have r1: "readList getRequirement (h @ ext) (requirement_refs s) = Some (requirements v)"
    unfolding getters_bind by simp
  from readList_append [OF en [unfolded getters_bind], of ext]
  have r2: "readList getEntity (h @ ext) (entity_refs s) = Some (entities v)"
    unfolding getters_bind by simp
  from readList_append [OF ep [unfolded getters_bind], of ext]
  have r3: "readList getEndpoint (h @ ext) (endpoint_refs s) = Some (endpoints v)"
    unfolding getters_bind by simp
  from r1 r2 r3 fo pa show ?thesis by (simp add: snapshot_Some_iff)
qed

text \<open>
  A request that was parsed into the store hands over pairwise different objects, so the run
  on the store and the run on values fail alike or return results that agree.
\<close>

lemma parsed_request_agrees:
  assumes snap: "snapshot h currentSpec = Some s"
    and parse: "parseRequest h changeRequest = (h1, request)"
  shows "rel_sum thrown agrees
           (applyChangeRequestToSpec_refs h1 currentSpec request)
           (applyChangeRequestToSpec s changeRequest)"
proof (cases "operations changeRequest")
  case None
  with parse have "h1 = h" "rr_operations request = None"
    by (auto simp: parseRequest_def)
  moreover from cloneSpec_snapshot [OF snap] obtain h2 w where
    "cloneSpec h currentSpec = Some (h2, w)" by blast
  ultimately show ?thesis
    using None by (simp add: applyChangeRequestToSpec_refs_def applyChangeRequestToSpec_def)
next
  case (Some ops)
  with parse obtain rs where p: "parseOperations h ops = (h1, rs)"
    and rq: "request = \<lparr> rr_summary = summary changeRequest, rr_operations = Some rs \<rparr>"
    by (auto simp: parseRequest_def split: prod.splits)
  from parseOperations_extends [OF p] obtain ext where ext: "h1 = h @ ext" by blast
  from snapshot_append [OF snap, of ext] ext have s1: "snapshot h1 currentSpec = Some s"
    by simp
  from valueOp_parseOperations [OF p]
  have v: "those (map (valueOp h1) rs) = Some ops"
    and d: "distinct (concat (map addedAddr rs))" by simp_all
  from Some have cr: "changeRequest = \<lparr> summary = summary changeRequest, operations = Some ops \<rparr>"
    by simp
  from applyChangeRequestToSpec_refs_agrees [OF s1 v d, of "summary changeRequest"] rq
  show ?thesis by (subst cr) simp
qed

section \<open>The current spec is not mutated\<close>

text \<open>
  Claim C2. The spec lives in the store \<open>h\<close>; the change request arrives as a document and is
  parsed into the store. Then the call leaves every object of \<open>currentSpec\<close> as it was,
  whether it returns or throws: \<open>currentSpec\<close> is deep-equal to its value before the call.
  All writes of \<open>Object.assign\<close> land on the copies made before the loop or on objects of the
  request.
\<close>

theorem current_spec_not_mutated:
  "\<forall>a\<in>specRefs currentSpec. a < length h \<Longrightarrow>
   parseRequest h changeRequest = (h1, request) \<Longrightarrow>
   (\<forall>a\<in>specRefs currentSpec.
      readObj (storeAfter (applyChangeRequestToSpec_refs h1 currentSpec request)) a =
      readObj h a) \<and>
   snapshot (storeAfter (applyChangeRequestToSpec_refs h1 currentSpec request)) currentSpec =
     snapshot h currentSpec"
proof -
  assume alloc: "\<forall>a\<in>specRefs currentSpec. a < length h"
    and parse: "parseRequest h changeRequest = (h1, request)"
  from parseRequest_extends [OF parse] obtain ext where
    ext: "h1 = h @ ext"
    and new: "\<forall>a\<in>(case rr_operations request of None \<Rightarrow> {} | Some ops \<Rightarrow> addedRefs ops).
                length h \<le> a"
    by blast
  have same: "\<forall>a\<in>specRefs currentSpec.
      readObj (storeAfter (applyChangeRequestToSpec_refs h1 currentSpec request)) a =
      readObj h a"
  proof
    fix a
    assume a: "a \<in> specRefs currentSpec"
    with alloc have lt: "a < length h" by simp
    with new have "a \<notin> (case rr_operations request of None \<Rightarrow> {} | Some ops \<Rightarrow> addedRefs ops)"
      by fastforce
    moreover from lt ext have "a < length h1" by simp
    ultimately
    have "readObj (storeAfter (applyChangeRequestToSpec_refs h1 currentSpec request)) a =
          readObj h1 a"
      by (rule call_leaves [rotated])
    with lt ext
    show "readObj (storeAfter (applyChangeRequestToSpec_refs h1 currentSpec request)) a =
          readObj h a"
      by (simp add: readObj_def nth_append)
  qed
  with snapshot_cong show ?thesis by blast
qed

text \<open>
  The theorem at two calls on a store that holds the requirement \<open>r1\<close> of the current spec.
  The first request adds a requirement and updates both: the call returns, and the update
  of \<open>r1\<close> has landed on the copy (address 2). The second call throws at its second
  operation, for the missing entities list, after its first operation has written to the
  copy.
\<close>

theorem current_spec_not_mutated_witness:
  "parseRequest [RequirementObj storedReq]
     (mkRequest [AddRequirement newReq, UpdateRequirement ''r2'' redescribe,
                 UpdateRequirement ''r1'' redescribe])
   = ([RequirementObj storedReq, RequirementObj newReq],
      mkRefRequest [RAddRequirement 1, RUpdateRequirement ''r2'' redescribe,
                    RUpdateRequirement ''r1'' redescribe]) \<and>
   applyChangeRequestToSpec_refs [RequirementObj storedReq, RequirementObj newReq] specAt0
     (mkRefRequest [RAddRequirement 1, RUpdateRequirement ''r2'' redescribe,
                    RUpdateRequirement ''r1'' redescribe])
   = Inr \<lparr> sr_heap = [RequirementObj storedReq,
                       RequirementObj (newReq\<lparr>req_description := ''changed''\<rparr>),
                       RequirementObj (storedReq\<lparr>req_description := ''changed''\<rparr>)],
           sr_spec = specAt0\<lparr>requirement_refs := Some [2, 1]\<rparr>,
           sr_conflicts = [],
           sr_impacts = [requirementsImpact ''Requirement added'',
                         requirementsImpact ''Requirement updated'',
                         requirementsImpact ''Requirement updated''] \<rparr> \<and>
   snapshot [RequirementObj storedReq,
             RequirementObj (newReq\<lparr>req_description := ''changed''\<rparr>),
             RequirementObj (storedReq\<lparr>req_description := ''changed''\<rparr>)] specAt0
   = snapshot [RequirementObj storedReq] specAt0 \<and>
   parseRequest [RequirementObj storedReq]
     (mkRequest [UpdateRequirement ''r1'' redescribe, AddEntity (mkEntity ''u1'' ''User'' [])])
   = ([RequirementObj storedReq, EntityObj (mkEntity ''u1'' ''User'' [])],
      mkRefRequest [RUpdateRequirement ''r1'' redescribe, RAddEntity 1]) \<and>
   applyChangeRequestToSpec_refs
     [RequirementObj storedReq, EntityObj (mkEntity ''u1'' ''User'' [])] specNoEntities
     (mkRefRequest [RUpdateRequirement ''r1'' redescribe, RAddEntity 1])
   = Inl (TypeError,
          [RequirementObj storedReq, EntityObj (mkEntity ''u1'' ''User'' []),
           RequirementObj (storedReq\<lparr>req_description := ''changed''\<rparr>)]) \<and>
   snapshot [RequirementObj storedReq, EntityObj (mkEntity ''u1'' ''User'' []),
             RequirementObj (storedReq\<lparr>req_description := ''changed''\<rparr>)] specNoEntities
   = snapshot [RequirementObj storedReq] specNoEntities"
proof -
  have p1: "parseRequest [RequirementObj storedReq]
     (mkRequest [AddRequirement newReq, UpdateRequirement ''r2'' redescribe,
                 UpdateRequirement ''r1'' redescribe])
   = ([RequirementObj storedReq, RequirementObj newReq],
      mkRefRequest [RAddRequirement 1, RUpdateRequirement ''r2'' redescribe,
                    RUpdateRequirement ''r1'' redescribe])"
    by (simp add: parseRequest_def mkRequest_def mkRefRequest_def)
  have run1: "applyChangeRequestToSpec_refs [RequirementObj storedReq, RequirementObj newReq] specAt0
     (mkRefRequest [RAddRequirement 1, RUpdateRequirement ''r2'' redescribe,
                    RUpdateRequirement ''r1'' redescribe])
   = Inr \<lparr> sr_heap = [RequirementObj storedReq,
                       RequirementObj (newReq\<lparr>req_description := ''changed''\<rparr>),
                       RequirementObj (storedReq\<lparr>req_description := ''changed''\<rparr>)],
           sr_spec = specAt0\<lparr>requirement_refs := Some [2, 1]\<rparr>,
           sr_conflicts = [],
           sr_impacts = [requirementsImpact ''Requirement added'',
                         requirementsImpact ''Requirement updated'',
                         requirementsImpact ''Requirement updated''] \<rparr>"
    by (simp add: applyChangeRequestToSpec_refs_def mkRefRequest_def specAt0_def cloneSpec_def
        cloneList_def readObj_def readAll_def readList_def snapshot_def getRequirement_def
        getEntity_def getEndpoint_def committed_def skipped_def storedReq_def newReq_def
        redescribe_def assignRequirement_def validateSpec_def validateCircularRelations_def)
  have a1: "\<forall>a\<in>specRefs specAt0. a < length [RequirementObj storedReq]"
    by (simp add: specRefs_def specAt0_def refsOf_def)
  have p2: "parseRequest [RequirementObj storedReq]
     (mkRequest [UpdateRequirement ''r1'' redescribe, AddEntity (mkEntity ''u1'' ''User'' [])])
   = ([RequirementObj storedReq, EntityObj (mkEntity ''u1'' ''User'' [])],
      mkRefRequest [RUpdateRequirement ''r1'' redescribe, RAddEntity 1])"
    by (simp add: parseRequest_def mkRequest_def mkRefRequest_def)
  have run2: "applyChangeRequestToSpec_refs
     [RequirementObj storedReq, EntityObj (mkEntity ''u1'' ''User'' [])] specNoEntities
     (mkRefRequest [RUpdateRequirement ''r1'' redescribe, RAddEntity 1])
   = Inl (TypeError,
          [RequirementObj storedReq, EntityObj (mkEntity ''u1'' ''User'' []),
           RequirementObj (storedReq\<lparr>req_description := ''changed''\<rparr>)])"
    by (simp add: applyChangeRequestToSpec_refs_def mkRefRequest_def specNoEntities_def
        cloneSpec_def cloneList_def readObj_def readAll_def readList_def getRequirement_def
        committed_def skipped_def storedReq_def redescribe_def assignRequirement_def)
  have a2: "\<forall>a\<in>specRefs specNoEntities. a < length [RequirementObj storedReq]"
    by (simp add: specRefs_def specNoEntities_def refsOf_def)
  from current_spec_not_mutated [OF a1 p1] current_spec_not_mutated [OF a2 p2]
  show ?thesis
    using p1 run1 p2 run2 by (simp add: storeAfter_def)
qed

end
